theory Spec2Isabelle
  imports Main "HOL-Library.Multiset"
begin

section \<open>The library as HOL functions\<close>

text \<open>
  Slices are lists, with a separate case for the nil slice where the code tests for it.
  Every function that can panic returns the panic as a value. Loops that update a slice
  in place are recursive functions on the backing array and the loop variables.
\<close>

subsection \<open>Errors, panics and the outcome of a call\<close>

text \<open>
  Go's \<^verbatim>\<open>error\<close> values. \<open>ErrorValue\<close> is an error built by user code
  (\<^verbatim>\<open>errors.New\<close>); \<open>RuntimeError\<close> is one of the run-time panics of the language, all of
  which implement \<^verbatim>\<open>error\<close>; \<open>StackTraceError e st\<close> is the value of
  \<^verbatim>\<open>fmt.Errorf("panic: %v\nStack trace:\n%s", e, st)\<close>.
\<close>

datatype runtime_error =
  IndexOutOfRange
  | SliceBoundsOutOfRange
  | MakesliceCapOutOfRange
  | TypeAssertionFailed

datatype error =
  ErrorValue string
  | RuntimeError runtime_error
  | StackTraceError error string

text \<open>
  The value handed to \<^verbatim>\<open>panic\<close> has type \<^verbatim>\<open>any\<close>. It either implements
  \<^verbatim>\<open>error\<close> (\<open>PanicError\<close>) or it does not (\<open>PanicOther\<close>, carrying the text of the
  value); \<^verbatim>\<open>panic("No element provided to Max")\<close> is of the second kind, since a string
  has no \<^verbatim>\<open>Error\<close> method. \<^verbatim>\<open>panic(nil)\<close> is left out: what \<^verbatim>\<open>recover\<close>
  returns for it depends on the language version of the module.
\<close>

datatype panic_value =
  PanicError error
  | PanicOther string

text \<open>
  The outcome of calling a \<^verbatim>\<open>func() (T, error)\<close>: it returns a value and an error
  (\<open>None\<close> is the nil error), or it panics. Functions of the library that return a single
  value and may panic have the result type \<open>panic_value + 'a\<close>.
\<close>

datatype 'a outcome =
  Returns 'a "error option"
  | Panics panic_value

subsection \<open>SafeExcecute and SafeExcecuteWithStackTrace\<close>

text \<open>
  The deferred function runs on every exit. After a normal return \<^verbatim>\<open>recover()\<close> is nil and
  the results of \<^verbatim>\<open>fn\<close> stand. After a panic the named result \<^verbatim>\<open>output\<close> still holds
  its zero value (parameter \<open>zero\<close>) and the handler evaluates \<^verbatim>\<open>r.(error)\<close>: the
  one-result form of a type assertion, which itself panics with a run-time error when the
  dynamic type of \<^verbatim>\<open>r\<close> does not implement \<^verbatim>\<open>error\<close>. That second panic is raised
  inside the deferred function, so it leaves the wrapper.
\<close>

fun SafeExcecute :: "'a \<Rightarrow> 'a outcome \<Rightarrow> 'a outcome" where
  "SafeExcecute zero (Returns output err) = Returns output err"
| "SafeExcecute zero (Panics (PanicError e)) = Returns zero (Some e)"
| "SafeExcecute zero (Panics (PanicOther v)) = Panics (PanicError (RuntimeError TypeAssertionFailed))"

text \<open>\<open>stack\<close> is the text \<^verbatim>\<open>getErrWithStackTrace\<close> reads from \<^verbatim>\<open>runtime.Stack\<close>.\<close>

fun SafeExcecuteWithStackTrace :: "string \<Rightarrow> 'a \<Rightarrow> 'a outcome \<Rightarrow> 'a outcome" where
  "SafeExcecuteWithStackTrace stack zero (Returns output err) = Returns output err"
| "SafeExcecuteWithStackTrace stack zero (Panics (PanicError e)) =
     Returns zero (Some (StackTraceError e stack))"
| "SafeExcecuteWithStackTrace stack zero (Panics (PanicOther v)) =
     Panics (PanicError (RuntimeError TypeAssertionFailed))"

subsection \<open>Max\<close>

fun Max_loop :: "int list \<Rightarrow> int \<Rightarrow> int" where
  "Max_loop [] maxValue = maxValue"
| "Max_loop (num # rest) maxValue = Max_loop rest (if num > maxValue then num else maxValue)"

definition Max_go :: "int list \<Rightarrow> panic_value + int" where
  "Max_go elements =
     (if length elements = 0 then Inl (PanicOther ''No element provided to Max'')
      else Inr (Max_loop elements (elements ! 0)))"

text \<open>
  A caller's closure \<^verbatim>\<open>func() (T, error) { return g(...), nil }\<close> around a call that
  returns one value or panics.
\<close>

definition returning_nil_error :: "panic_value + 'a \<Rightarrow> 'a outcome" where
  "returning_nil_error r = (case r of Inl p \<Rightarrow> Panics p | Inr v \<Rightarrow> Returns v None)"

subsection \<open>SafeMap, SafeReduce, SafeFind\<close>

text \<open>
  The user function is a HOL function to an outcome. Each loop also keeps a log \<open>calls\<close>
  of the elements the user function has been invoked on, in order; the log is not part of
  what the Go function returns, it records which invocations took place. A nil result
  slice is \<open>None\<close>.
\<close>

fun SafeMap_loop ::
  "'o \<Rightarrow> ('i \<Rightarrow> 'o outcome) \<Rightarrow> 'i list \<Rightarrow> nat \<Rightarrow> 'o list \<Rightarrow> 'i list
     \<Rightarrow> ('o list option) outcome \<times> 'i list" where
  "SafeMap_loop zero mappingFunc [] i outputSlice calls = (Returns (Some outputSlice) None, calls)"
| "SafeMap_loop zero mappingFunc (input # rest) i outputSlice calls =
     (case SafeExcecute zero (mappingFunc input) of
        Panics p \<Rightarrow> (Panics p, calls @ [input])
      | Returns output err \<Rightarrow>
          if err \<noteq> None then (Returns None err, calls @ [input])
          else SafeMap_loop zero mappingFunc rest (i + 1) (outputSlice[i := output])
                 (calls @ [input]))"

definition SafeMap ::
  "'o \<Rightarrow> 'i list \<Rightarrow> ('i \<Rightarrow> 'o outcome) \<Rightarrow> ('o list option) outcome \<times> 'i list" where
  "SafeMap zero inputSlice mappingFunc =
     SafeMap_loop zero mappingFunc inputSlice 0 (replicate (length inputSlice) zero) []"

fun SafeReduce_loop ::
  "'o \<Rightarrow> ('o \<Rightarrow> 'i \<Rightarrow> 'o outcome) \<Rightarrow> 'i list \<Rightarrow> 'o \<Rightarrow> 'i list \<Rightarrow> 'o outcome \<times> 'i list" where
  "SafeReduce_loop zero reduceFunc [] accumulator calls = (Returns accumulator None, calls)"
| "SafeReduce_loop zero reduceFunc (input # rest) accumulator calls =
     (case SafeExcecute zero (reduceFunc accumulator input) of
        Panics p \<Rightarrow> (Panics p, calls @ [input])
      | Returns accumAux err \<Rightarrow>
          if err \<noteq> None then (Returns accumAux err, calls @ [input])
          else SafeReduce_loop zero reduceFunc rest accumAux (calls @ [input]))"

definition SafeReduce ::
  "'o \<Rightarrow> 'i list \<Rightarrow> ('o \<Rightarrow> 'i \<Rightarrow> 'o outcome) \<Rightarrow> 'o \<Rightarrow> 'o outcome \<times> 'i list" where
  "SafeReduce zero inputSlice reduceFunc initialValue =
     SafeReduce_loop zero reduceFunc inputSlice initialValue []"

text \<open>
  SafeFind returns \<^verbatim>\<open>(foundItem, didFind, err)\<close>; \<open>zero\<close> is the zero value of the element
  type, which \<^verbatim>\<open>foundItem\<close> holds until an element is found.
\<close>

fun SafeFind_loop ::
  "'i \<Rightarrow> ('i \<Rightarrow> bool outcome) \<Rightarrow> 'i list \<Rightarrow> 'i list \<Rightarrow> ('i \<times> bool) outcome \<times> 'i list" where
  "SafeFind_loop zero findFunc [] calls = (Returns (zero, False) None, calls)"
| "SafeFind_loop zero findFunc (input # rest) calls =
     (case SafeExcecute False (findFunc input) of
        Panics p \<Rightarrow> (Panics p, calls @ [input])
      | Returns didFind err \<Rightarrow>
          if err \<noteq> None then (Returns (zero, False) err, calls @ [input])
          else if didFind then (Returns (input, True) None, calls @ [input])
          else SafeFind_loop zero findFunc rest (calls @ [input]))"

definition SafeFind ::
  "'i \<Rightarrow> 'i list \<Rightarrow> ('i \<Rightarrow> bool outcome) \<Rightarrow> ('i \<times> bool) outcome \<times> 'i list" where
  "SafeFind zero inputSlice findFunc = SafeFind_loop zero findFunc inputSlice []"

text \<open>
  Two predicates on the outcome of one invocation of a user function, used to state what
  the loops do: it returned a nil error, or it failed with error \<open>e\<close> in a way the wrapper
  converts (a returned non-nil error, or a panic whose value is the error \<open>e\<close>).
\<close>

definition succeeds :: "'a outcome \<Rightarrow> bool" where
  "succeeds r = (case r of Returns v None \<Rightarrow> True | _ \<Rightarrow> False)"

definition fails_with :: "'a outcome \<Rightarrow> error \<Rightarrow> bool" where
  "fails_with r e = (case r of Returns v (Some e') \<Rightarrow> e' = e
                     | Panics (PanicError e') \<Rightarrow> e' = e
                     | _ \<Rightarrow> False)"

subsection \<open>Lazy sequences and SafeMapSeq\<close>

text \<open>
  A finite \<^verbatim>\<open>iter.Seq\<close> is represented by the list of the elements it pushes, in order.
  Its consumer is the \<^verbatim>\<open>yield\<close> callback, here a function on the consumer's own state
  \<open>'s\<close> that returns whether to continue together with the new state. Driving a sequence
  ends with the consumer's final state, or with a panic that reaches the consumer.
\<close>

type_synonym ('a, 's) yield = "'a \<Rightarrow> 's \<Rightarrow> bool \<times> 's"

text \<open>\<^verbatim>\<open>slices.Values\<close>: push the elements of a slice until the consumer stops.\<close>

fun Values :: "'a list \<Rightarrow> ('a, 's) yield \<Rightarrow> 's \<Rightarrow> 's" where
  "Values [] yield s = s"
| "Values (v # rest) yield s =
     (case yield v s of (continue, s') \<Rightarrow> if \<not> continue then s' else Values rest yield s')"

fun SafeMapSeq ::
  "'o \<Rightarrow> 'i list \<Rightarrow> ('i \<Rightarrow> 'o outcome) \<Rightarrow> ('o, 's) yield \<Rightarrow> 's \<Rightarrow> panic_value + 's" where
  "SafeMapSeq zero [] mapFunc yield s = Inr s"
| "SafeMapSeq zero (input # rest) mapFunc yield s =
     (case SafeExcecute zero (mapFunc input) of
        Panics p \<Rightarrow> Inl p
      | Returns out errAux \<Rightarrow>
          if errAux \<noteq> None then Inr s
          else (case yield out s of (continue, s') \<Rightarrow>
                  if \<not> continue then Inr s' else SafeMapSeq zero rest mapFunc yield s'))"

text \<open>The consumer that keeps every element and never stops.\<close>

definition collect :: "('a, 'a list) yield" where
  "collect v s = (True, s @ [v])"

subsection \<open>Reverse\<close>

text \<open>
  The loop runs while \<^verbatim>\<open>i <= len(slice)/2\<close>. An index outside the slice is a run-time
  panic; \<open>j\<close> is an \<open>int\<close> because \<^verbatim>\<open>len(slice) - i - 1\<close> is negative on the empty slice.
\<close>

function Reverse_loop :: "'a list \<Rightarrow> nat \<Rightarrow> panic_value + 'a list" where
  "Reverse_loop slice i =
     (if i \<le> length slice div 2 then
        (let j = int (length slice) - int i - 1 in
         if i < length slice \<and> 0 \<le> j \<and> j < int (length slice) then
           Reverse_loop (slice[i := slice ! nat j, nat j := slice ! i]) (i + 1)
         else Inl (PanicError (RuntimeError IndexOutOfRange)))
      else Inr slice)"
  by pat_completeness auto
termination
  by (relation "measure (\<lambda>(slice, i). Suc (length slice div 2) - i)") auto

definition Reverse :: "'a list \<Rightarrow> panic_value + 'a list" where
  "Reverse slice = Reverse_loop slice 0"

subsection \<open>RemoveElement\<close>

text \<open>
  The slice is compacted in place: the loop reads position \<open>i\<close> of the backing array
  and writes the kept element at position \<open>newSliceLen\<close> of the same array; the result is
  \<^verbatim>\<open>slice[:newSliceLen]\<close>. A write outside the slice would be a run-time panic. The
  pointer \<^verbatim>\<open>occurrencesToDelete\<close> is an \<open>int option\<close>, \<open>None\<close> for nil; the counter
  \<^verbatim>\<open>count\<close> of the source is \<open>cnt\<close>. It never exceeds the length of the slice, so it
  does not overflow.
\<close>

function RemoveElement_loop ::
  "'a list \<Rightarrow> 'a \<Rightarrow> int \<Rightarrow> nat \<Rightarrow> int \<Rightarrow> nat \<Rightarrow> panic_value + 'a list" where
  "RemoveElement_loop slice element limit i cnt newSliceLen =
     (if i < length slice then
        (let e = slice ! i in
         if e = element \<and> (limit = -1 \<or> cnt < limit) then
           RemoveElement_loop slice element limit (i + 1) (cnt + 1) newSliceLen
         else if newSliceLen < length slice then
           RemoveElement_loop (slice[newSliceLen := e]) element limit (i + 1) cnt (newSliceLen + 1)
         else Inl (PanicError (RuntimeError IndexOutOfRange)))
      else Inr (take newSliceLen slice))"
  by pat_completeness auto
termination
  by (relation "measure (\<lambda>(slice, element, limit, i, cnt, newSliceLen). length slice - i)") auto

definition RemoveElement :: "'a list \<Rightarrow> 'a \<Rightarrow> int option \<Rightarrow> panic_value + 'a list" where
  "RemoveElement slice element occurrencesToDelete =
     (if length slice = 0 then Inr slice
      else (case occurrencesToDelete of
              None \<Rightarrow> RemoveElement_loop slice element (-1) 0 0 0
            | Some n \<Rightarrow>
                if n \<le> 0 then Inr slice
                else RemoveElement_loop slice element n 0 0 0))"

text \<open>
  What the specification describes: the sequence without its \<open>k\<close> leftmost occurrences of
  \<open>v\<close>.
\<close>

fun remove_leftmost :: "nat \<Rightarrow> 'a \<Rightarrow> 'a list \<Rightarrow> 'a list" where
  "remove_leftmost 0 v xs = xs"
| "remove_leftmost (Suc k) v [] = []"
| "remove_leftmost (Suc k) v (x # xs) =
     (if x = v then remove_leftmost k v xs else x # remove_leftmost (Suc k) v xs)"

subsection \<open>RemoveElementSeq\<close>

text \<open>
  The lazy variant takes the count as an \<^verbatim>\<open>int\<close>; \<open>-1\<close> becomes \<^verbatim>\<open>math.MaxInt\<close>. The
  variable \<^verbatim>\<open>limit\<close> is captured by the returned sequence and decremented while it is
  driven, so a drive takes its current value and leaves the updated one.
\<close>

definition RemoveElementSeq_limit :: "int \<Rightarrow> int" where
  "RemoveElementSeq_limit occurrencesToDelete =
     (if occurrencesToDelete = - 1 then 2 ^ 63 - 1 else occurrencesToDelete)"

fun RemoveElementSeq :: "'a list \<Rightarrow> 'a \<Rightarrow> ('a, 's) yield \<Rightarrow> int \<Rightarrow> 's \<Rightarrow> int \<times> 's" where
  "RemoveElementSeq [] element yield limit s = (limit, s)"
| "RemoveElementSeq (input # rest) element yield limit s =
     (if input = element \<and> limit > 0 then RemoveElementSeq rest element yield (limit - 1) s
      else (case yield input s of (continue, s') \<Rightarrow>
              if \<not> continue then (limit, s') else RemoveElementSeq rest element yield limit s'))"

subsection \<open>Distinct\<close>

text \<open>
  The same in-place compaction, with the map \<^verbatim>\<open>seenItems\<close> of the elements met so far.
\<close>

function Distinct_loop ::
  "'a list \<Rightarrow> nat \<Rightarrow> ('a \<rightharpoonup> unit) \<Rightarrow> nat \<Rightarrow> panic_value + 'a list" where
  "Distinct_loop slice i seenItems newSliceLen =
     (if i < length slice then
        (let item = slice ! i in
         if seenItems item \<noteq> None then Distinct_loop slice (i + 1) seenItems newSliceLen
         else if newSliceLen < length slice then
           Distinct_loop (slice[newSliceLen := item]) (i + 1) (seenItems(item \<mapsto> ()))
             (newSliceLen + 1)
         else Inl (PanicError (RuntimeError IndexOutOfRange)))
      else Inr (take newSliceLen slice))"
  by pat_completeness auto
termination
  by (relation "measure (\<lambda>(slice, i, seenItems, newSliceLen). length slice - i)") auto

definition Distinct :: "'a list \<Rightarrow> panic_value + 'a list" where
  "Distinct slice = Distinct_loop slice 0 Map.empty 0"

text \<open>
  What the specification describes: every element once, at the place of its first
  occurrence.
\<close>

fun first_occurrences :: "'a list \<Rightarrow> 'a list" where
  "first_occurrences [] = []"
| "first_occurrences (x # xs) = x # filter (\<lambda>y. y \<noteq> x) (first_occurrences xs)"

subsection \<open>UnionSeq and Union\<close>

text \<open>
  One \<^verbatim>\<open>for input := range inputSeq\<close> loop of UnionSeq. The map \<^verbatim>\<open>seen\<close> is created
  when UnionSeq is called and captured by the returned sequence, so a drive takes the map
  as it stands and leaves it updated. The first component of the result tells whether the
  loop ran to its end (\<open>True\<close>) or the closure returned because the consumer stopped.
  The two loops of the source have the same body.
\<close>

fun UnionSeq_loop ::
  "'a list \<Rightarrow> ('a, 's) yield \<Rightarrow> ('a \<rightharpoonup> bool) \<Rightarrow> 's \<Rightarrow> bool \<times> ('a \<rightharpoonup> bool) \<times> 's" where
  "UnionSeq_loop [] yield seen s = (True, seen, s)"
| "UnionSeq_loop (input # rest) yield seen s =
     (if seen input = None then
        (case yield input s of (continue, s') \<Rightarrow>
           if \<not> continue then (False, seen(input \<mapsto> True), s')
           else UnionSeq_loop rest yield (seen(input \<mapsto> True)) s')
      else UnionSeq_loop rest yield seen s)"

definition UnionSeq ::
  "'a list \<Rightarrow> 'a list \<Rightarrow> ('a, 's) yield \<Rightarrow> ('a \<rightharpoonup> bool) \<Rightarrow> 's \<Rightarrow> ('a \<rightharpoonup> bool) \<times> 's" where
  "UnionSeq inputSeq1 inputSeq2 yield seen s =
     (case UnionSeq_loop inputSeq1 yield seen s of
        (completed, seen', s') \<Rightarrow>
          if \<not> completed then (seen', s')
          else (case UnionSeq_loop inputSeq2 yield seen' s' of
                  (completed', seen'', s'') \<Rightarrow> (seen'', s'')))"

text \<open>
  The eager Union collects both slices into a map and appends the keys in the order
  \<^verbatim>\<open>for item := range set\<close> visits them. The language leaves that order unspecified, so
  the function is a relation: \<open>Union_go a b result\<close> holds when \<open>result\<close> is an enumeration
  of the keys, each once, in some order.
\<close>

definition Union_go :: "'a list \<Rightarrow> 'a list \<Rightarrow> 'a list \<Rightarrow> bool" where
  "Union_go a b result = (distinct result \<and> set result = set a \<union> set b)"

subsection \<open>Chunk\<close>

text \<open>
  \<^verbatim>\<open>chunkSize\<close> and the loop counter are Go \<^verbatim>\<open>int\<close>s, taken as 64 bits wide: a sum
  outside \<open>-2^63 .. 2^63 - 1\<close> wraps around (\<open>wrap64\<close>), and \<^verbatim>\<open>/\<close> truncates toward zero
  (\<open>quo\<close>).
\<close>

definition wrap64 :: "int \<Rightarrow> int" where
  "wrap64 x = (x + 2 ^ 63) mod 2 ^ 64 - 2 ^ 63"

definition quo :: "int \<Rightarrow> int \<Rightarrow> int" where
  "quo a b = (if (a < 0) = (b < 0) then \<bar>a\<bar> div \<bar>b\<bar> else - (\<bar>a\<bar> div \<bar>b\<bar>))"

text \<open>
  The loop \<^verbatim>\<open>for i := 0; i < len(slice); i += chunkSize\<close>. The slice expression
  \<^verbatim>\<open>slice[i:end]\<close> panics unless \<open>0 \<le> i \<le> end\<close> (\<open>end\<close> has been clamped to the length
  before). The result is \<open>None\<close> if the loop does not end.
\<close>

partial_function (option) Chunk_loop ::
  "'a list \<Rightarrow> int \<Rightarrow> int \<Rightarrow> 'a list list \<Rightarrow> (panic_value + 'a list list) option" where
  "Chunk_loop slice chunkSize i chunks =
     (if i < int (length slice) then
        (let end' = wrap64 (i + chunkSize);
             end' = (if end' > int (length slice) then int (length slice) else end')
         in if 0 \<le> i \<and> i \<le> end' then
              Chunk_loop slice chunkSize (wrap64 (i + chunkSize))
                (chunks @ [take (nat (end' - i)) (drop (nat i) slice)])
            else Some (Inl (PanicError (RuntimeError SliceBoundsOutOfRange))))
      else Some (Inr chunks))"

text \<open>
  \<^verbatim>\<open>make([]S, 0, numChunks)\<close> panics when the capacity is negative. (Running out of
  memory for a huge capacity is not modelled.)
\<close>

definition Chunk :: "'a list \<Rightarrow> int \<Rightarrow> (panic_value + 'a list list) option" where
  "Chunk slice chunkSize =
     (if chunkSize \<le> 0 \<or> length slice = 0 then Some (Inr [])
      else (let numChunks = quo (wrap64 (wrap64 (int (length slice) + chunkSize) - 1)) chunkSize
            in if numChunks < 0 then Some (Inl (PanicError (RuntimeError MakesliceCapOutOfRange)))
               else Chunk_loop slice chunkSize 0 []))"

text \<open>
  What the specification describes: consecutive pieces of \<open>n\<close> elements, the last one
  holding what is left.
\<close>

function chunks_of :: "nat \<Rightarrow> 'a list \<Rightarrow> 'a list list" where
  "chunks_of n xs = (if n = 0 \<or> xs = [] then [] else take n xs # chunks_of n (drop n xs))"
  by pat_completeness auto
termination
  by (relation "measure (\<lambda>(n, xs). length xs)") auto

subsection \<open>Map\<close>

text \<open>
  \<^verbatim>\<open>make([]O, len(inputSlice))\<close> is a slice of zero values (parameter \<open>zero\<close>); the loop
  stores the image of each element at its index. The mapping function is a HOL function:
  it returns for every element and has no effect besides its result.
\<close>

fun Map_loop :: "('i \<Rightarrow> 'o) \<Rightarrow> 'i list \<Rightarrow> nat \<Rightarrow> 'o list \<Rightarrow> 'o list" where
  "Map_loop mapFunc [] i outputSlice = outputSlice"
| "Map_loop mapFunc (input # rest) i outputSlice =
     Map_loop mapFunc rest (i + 1) (outputSlice[i := mapFunc input])"

definition Map :: "'o \<Rightarrow> 'i list \<Rightarrow> ('i \<Rightarrow> 'o) \<Rightarrow> 'o list" where
  "Map zero inputSlice mapFunc =
     Map_loop mapFunc inputSlice 0 (replicate (length inputSlice) zero)"

subsection \<open>ParallelMap\<close>

text \<open>
  ParallelMap runs the main goroutine and \<^verbatim>\<open>numWorkers\<close> worker goroutines. A worker is
  waiting at \<^verbatim>\<open>for idx := range inputChan\<close>, holds an index it has received and not yet
  processed, or has left its loop and called \<^verbatim>\<open>wg.Done()\<close>.
\<close>

datatype worker = Waiting | Holding nat | Returned

text \<open>
  The shared state: the counter of the main goroutine's sending loop, whether the channel
  is closed, the buffered channel (a queue of indices), the workers, and the output slice.
  \<open>invoked\<close> logs the indices at which \<^verbatim>\<open>mapFunc\<close> has been called, in the order of the
  calls; it is not a variable of the program.
\<close>

record 'o pm_state =
  next_send :: nat
  closed :: bool
  inputChan :: "nat list"
  workers :: "worker list"
  outputSlice :: "'o list"
  invoked :: "nat list"

text \<open>
  One step of one goroutine. The channel has capacity \<^verbatim>\<open>len(inputSlice)\<close>, so a send never
  blocks. The workers are started before the first send and can do nothing until an index
  is in the channel, so all of them are present from the start. The schedule is free: any
  enabled step of any goroutine may come next.
\<close>

inductive pm_step :: "('i \<Rightarrow> 'o) \<Rightarrow> 'i list \<Rightarrow> 'o pm_state \<Rightarrow> 'o pm_state \<Rightarrow> bool"
  for mapFunc :: "'i \<Rightarrow> 'o" and inputSlice :: "'i list" where
  send: "next_send s < length inputSlice \<Longrightarrow>
     pm_step mapFunc inputSlice s
       (s\<lparr>inputChan := inputChan s @ [next_send s], next_send := next_send s + 1\<rparr>)"
| close: "next_send s = length inputSlice \<Longrightarrow> \<not> closed s \<Longrightarrow>
     pm_step mapFunc inputSlice s (s\<lparr>closed := True\<rparr>)"
| receive: "w < length (workers s) \<Longrightarrow> workers s ! w = Waiting \<Longrightarrow> inputChan s = idx # rest \<Longrightarrow>
     pm_step mapFunc inputSlice s
       (s\<lparr>inputChan := rest, workers := (workers s)[w := Holding idx]\<rparr>)"
| process: "w < length (workers s) \<Longrightarrow> workers s ! w = Holding idx \<Longrightarrow>
     pm_step mapFunc inputSlice s
       (s\<lparr>outputSlice := (outputSlice s)[idx := mapFunc (inputSlice ! idx)],
          invoked := invoked s @ [idx],
          workers := (workers s)[w := Waiting]\<rparr>)"
| leave: "w < length (workers s) \<Longrightarrow> workers s ! w = Waiting \<Longrightarrow> inputChan s = [] \<Longrightarrow> closed s \<Longrightarrow>
     pm_step mapFunc inputSlice s (s\<lparr>workers := (workers s)[w := Returned]\<rparr>)"

text \<open>
  The state after \<^verbatim>\<open>make\<close> and the start of the workers; \<open>numCPU\<close> is the value of
  \<^verbatim>\<open>runtime.NumCPU()\<close>.
\<close>

definition ParallelMap_init :: "nat \<Rightarrow> 'o \<Rightarrow> 'i list \<Rightarrow> 'o pm_state" where
  "ParallelMap_init numCPU zero inputSlice =
     \<lparr>next_send = 0, closed = False, inputChan = [],
      workers = replicate (if length inputSlice < numCPU then length inputSlice else numCPU) Waiting,
      outputSlice = replicate (length inputSlice) zero,
      invoked = []\<rparr>"

text \<open>\<^verbatim>\<open>wg.Wait()\<close> returns: the channel is closed and every worker has returned.\<close>

definition finished :: "'o pm_state \<Rightarrow> bool" where
  "finished s = (closed s \<and> list_all (\<lambda>w. w = Returned) (workers s))"

text \<open>
  The results ParallelMap can return. The input is \<open>None\<close> for the nil slice, for which the
  function returns the empty slice at once.
\<close>

inductive ParallelMap :: "nat \<Rightarrow> 'o \<Rightarrow> 'i list option \<Rightarrow> ('i \<Rightarrow> 'o) \<Rightarrow> 'o list \<Rightarrow> bool" where
  nil_input: "ParallelMap numCPU zero None mapFunc []"
| run: "(pm_step mapFunc inputSlice)\<^sup>*\<^sup>* (ParallelMap_init numCPU zero inputSlice) s \<Longrightarrow>
     finished s \<Longrightarrow>
     ParallelMap numCPU zero (Some inputSlice) mapFunc (outputSlice s)"

text \<open>The elements of a slice that may be nil.\<close>

definition elements_of :: "'a list option \<Rightarrow> 'a list" where
  "elements_of inputSlice = (case inputSlice of None \<Rightarrow> [] | Some xs \<Rightarrow> xs)"

text \<open>
  Quantities used to reason about runs: the indices held by workers, a measure that
  every step decreases, and the invariant of the reachable states: the indices sent so far
  are, each once, those already processed, those in the channel and those held.
\<close>

fun held :: "worker list \<Rightarrow> nat list" where
  "held [] = []"
| "held (Holding idx # ws) = idx # held ws"
| "held (w # ws) = held ws"

fun remaining_steps :: "worker \<Rightarrow> nat" where
  "remaining_steps Waiting = 1"
| "remaining_steps (Holding idx) = 2"
| "remaining_steps Returned = 0"

definition pm_measure :: "nat \<Rightarrow> 'o pm_state \<Rightarrow> nat" where
  "pm_measure n s =
     3 * (n - next_send s) + 2 * length (inputChan s) + sum_list (map remaining_steps (workers s))
       + (if closed s then 0 else 1)"

definition pm_inv :: "nat \<Rightarrow> ('i \<Rightarrow> 'o) \<Rightarrow> 'i list \<Rightarrow> 'o pm_state \<Rightarrow> bool" where
  "pm_inv numWorkers mapFunc inputSlice s =
     (length (workers s) = numWorkers \<and>
      length (outputSlice s) = length inputSlice \<and>
      next_send s \<le> length inputSlice \<and>
      (closed s \<longrightarrow> next_send s = length inputSlice) \<and>
      (Returned \<in> set (workers s) \<longrightarrow> closed s \<and> inputChan s = []) \<and>
      distinct (invoked s @ inputChan s @ held (workers s)) \<and>
      set (invoked s @ inputChan s @ held (workers s)) = {..<next_send s} \<and>
      list_all (\<lambda>i. outputSlice s ! i = mapFunc (inputSlice ! i)) (invoked s))"

declare Distinct_loop.simps [simp del] RemoveElement_loop.simps [simp del]
  chunks_of.simps [simp del] Reverse_loop.simps [simp del]

declare Chunk_loop.simps [code]

section \<open>The safe-execution wrapper\<close>

lemma SafeExcecute_normal_return:
  "SafeExcecute zero (Returns v e) = Returns v e"
  "SafeExcecuteWithStackTrace stack zero (Returns v e) = Returns v e"
  by simp_all

lemma SafeExcecute_error_panic:
  "SafeExcecute zero (Panics (PanicError e)) = Returns zero (Some e)"
  "SafeExcecuteWithStackTrace stack zero (Panics (PanicError e)) =
     Returns zero (Some (StackTraceError e stack))"
  by simp_all

text \<open>
  C2. The wrappers should turn a panic with any value into a non-nil error and a zero
  result. At a panic whose value is a string the type assertion in the deferred handler
  fails, and both wrappers panic themselves instead of returning.
\<close>

theorem SafeExcecute_string_panic_escapes:
  "SafeExcecute (0::int) (Panics (PanicOther ''boom'')) =
     Panics (PanicError (RuntimeError TypeAssertionFailed)) \<and>
   SafeExcecuteWithStackTrace ''goroutine 1 [running]'' (0::int) (Panics (PanicOther ''boom'')) =
     Panics (PanicError (RuntimeError TypeAssertionFailed))"
  by simp

section \<open>Max\<close>

lemma Max_loop_ge_acc: "m \<le> Max_loop xs m"
proof (induction xs arbitrary: m)
  case Nil
  then show ?case by simp
next
  case (Cons y ys)
  have "m \<le> (if y > m then y else m)" by simp
  also have "\<dots> \<le> Max_loop ys (if y > m then y else m)" by (rule Cons.IH)
  finally show ?case by simp
qed

lemma Max_loop_upper: "x \<in> set xs \<Longrightarrow> x \<le> Max_loop xs m"
proof (induction xs arbitrary: m)
  case Nil
  then show ?case by simp
next
  case (Cons y ys)
  show ?case
  proof (cases "x = y")
    case True
    have "y \<le> (if y > m then y else m)" by simp
    also have "\<dots> \<le> Max_loop ys (if y > m then y else m)" by (rule Max_loop_ge_acc)
    finally show ?thesis using True by simp
  next
    case False
    with Cons.prems have "x \<in> set ys" by simp
    then show ?thesis using Cons.IH by simp
  qed
qed

lemma Max_loop_member: "Max_loop xs m = m \<or> Max_loop xs m \<in> set xs"
proof (induction xs arbitrary: m)
  case Nil
  then show ?case by simp
next
  case (Cons y ys)
  from Cons.IH [of "if y > m then y else m"] show ?case
    by (auto split: if_splits)
qed

lemma Max_go_nonempty:
  assumes "elements \<noteq> []"
  shows "\<exists>m. Max_go elements = Inr m \<and> m \<in> set elements \<and> (\<forall>x \<in> set elements. x \<le> m)"
proof -
  obtain y ys where e: "elements = y # ys" using assms by (cases elements) auto
  have "Max_loop elements y = y \<or> Max_loop elements y \<in> set elements"
    by (rule Max_loop_member)
  then have "Max_loop elements y \<in> set elements" using e by auto
  moreover have "\<forall>x \<in> set elements. x \<le> Max_loop elements y"
    by (simp add: Max_loop_upper)
  ultimately show ?thesis using e by (simp add: Max_go_def)
qed

lemma Max_go_empty: "Max_go [] = Inl (PanicOther ''No element provided to Max'')"
  by (simp add: Max_go_def)

text \<open>
  C7. Max with no elements panics, and the panic should become an error under
  SafeExcecute. The panic value is a string, so the wrapper's type assertion fails and the
  call still panics (with a run-time error in place of the message).
\<close>

theorem SafeExcecute_Max_empty_panics:
  "Max_go [] = Inl (PanicOther ''No element provided to Max'') \<and>
   SafeExcecute 0 (returning_nil_error (Max_go [])) =
     Panics (PanicError (RuntimeError TypeAssertionFailed))"
  by (simp add: Max_go_def returning_nil_error_def)

section \<open>Stopping at the first error\<close>

lemma succeeds_SafeExcecute:
  "succeeds r \<Longrightarrow> \<exists>v. SafeExcecute zero r = Returns v None \<and> r = Returns v None"
  by (cases r) (auto simp: succeeds_def split: option.splits)

lemma fails_with_SafeExcecute:
  assumes "fails_with r e"
  shows "\<exists>v. SafeExcecute zero r = Returns v (Some e)"
proof (cases r)
  case (Returns v err)
  with assms show ?thesis by (cases err) (auto simp: fails_with_def)
next
  case (Panics p)
  with assms show ?thesis by (cases p) (auto simp: fails_with_def)
qed

lemma SafeMap_loop_first_error:
  assumes "\<forall>x \<in> set pre. succeeds (mappingFunc x)" and "fails_with (mappingFunc x) e"
  shows "SafeMap_loop zero mappingFunc (pre @ x # post) i out calls =
           (Returns None (Some e), calls @ pre @ [x])"
  using assms
proof (induction pre arbitrary: i out calls)
  case Nil
  then obtain v where "SafeExcecute zero (mappingFunc x) = Returns v (Some e)"
    using fails_with_SafeExcecute [of "mappingFunc x" e zero] by blast
  then show ?case by simp
next
  case (Cons y pre)
  then obtain v where "SafeExcecute zero (mappingFunc y) = Returns v None"
    using succeeds_SafeExcecute [of "mappingFunc y" zero] by auto
  then show ?case using Cons by simp
qed

lemma SafeMap_first_error:
  assumes "\<forall>x \<in> set pre. succeeds (mappingFunc x)" and "fails_with (mappingFunc x) e"
  shows "SafeMap zero (pre @ x # post) mappingFunc = (Returns None (Some e), pre @ [x])"
  using SafeMap_loop_first_error [OF assms] by (simp add: SafeMap_def)

lemma SafeReduce_loop_append:
  assumes "SafeReduce_loop zero reduceFunc pre acc calls = (Returns acc' None, calls')"
  shows "SafeReduce_loop zero reduceFunc (pre @ rest) acc calls =
           SafeReduce_loop zero reduceFunc rest acc' calls'"
  using assms
proof (induction pre arbitrary: acc calls)
  case Nil
  then show ?case by simp
next
  case (Cons y pre)
  show ?case
  proof (cases "SafeExcecute zero (reduceFunc acc y)")
    case (Panics p)
    with Cons.prems show ?thesis by simp
  next
    case (Returns v err)
    show ?thesis
    proof (cases err)
      case None
      with Returns Cons.prems
      have "SafeReduce_loop zero reduceFunc pre v (calls @ [y]) = (Returns acc' None, calls')"
        by simp
      from Cons.IH [OF this] show ?thesis using Returns None by simp
    next
      case (Some e)
      with Returns Cons.prems show ?thesis by simp
    qed
  qed
qed

lemma SafeReduce_loop_calls:
  assumes "SafeReduce_loop zero reduceFunc pre acc calls = (Returns acc' None, calls')"
  shows "calls' = calls @ pre"
  using assms
proof (induction pre arbitrary: acc calls)
  case Nil
  then show ?case by simp
next
  case (Cons y pre)
  show ?case
  proof (cases "SafeExcecute zero (reduceFunc acc y)")
    case (Panics p)
    with Cons.prems show ?thesis by simp
  next
    case (Returns v err)
    show ?thesis
    proof (cases err)
      case None
      with Returns Cons.prems
      have "SafeReduce_loop zero reduceFunc pre v (calls @ [y]) = (Returns acc' None, calls')"
        by simp
      from Cons.IH [OF this] show ?thesis by simp
    next
      case (Some e)
      with Returns Cons.prems show ?thesis by simp
    qed
  qed
qed

lemma SafeReduce_first_error:
  assumes "SafeReduce zero pre reduceFunc initialValue = (Returns acc' None, calls')"
    and "fails_with (reduceFunc acc' x) e"
  shows "\<exists>v. SafeReduce zero (pre @ x # post) reduceFunc initialValue =
           (Returns v (Some e), pre @ [x])"
proof -
  from assms(1) have run: "SafeReduce_loop zero reduceFunc pre initialValue [] = (Returns acc' None, calls')"
    by (simp add: SafeReduce_def)
  have c: "calls' = pre" using SafeReduce_loop_calls [OF run] by simp
  obtain v where v: "SafeExcecute zero (reduceFunc acc' x) = Returns v (Some e)"
    using fails_with_SafeExcecute [OF assms(2)] by blast
  have "SafeReduce zero (pre @ x # post) reduceFunc initialValue =
          SafeReduce_loop zero reduceFunc (x # post) acc' pre"
    using SafeReduce_loop_append [OF run] c by (simp add: SafeReduce_def)
  also have "\<dots> = (Returns v (Some e), pre @ [x])" using v by simp
  finally show ?thesis by blast
qed

lemma SafeFind_loop_first_error:
  assumes "\<forall>x \<in> set pre. mappingFunc x = Returns False None" and "fails_with (mappingFunc x) e"
  shows "SafeFind_loop zero mappingFunc (pre @ x # post) calls =
           (Returns (zero, False) (Some e), calls @ pre @ [x])"
  using assms
proof (induction pre arbitrary: calls)
  case Nil
  then obtain v where "SafeExcecute False (mappingFunc x) = Returns v (Some e)"
    using fails_with_SafeExcecute [of "mappingFunc x" e False] by blast
  then show ?case by simp
next
  case (Cons y pre)
  then show ?case by simp
qed

text \<open>
  C4. SafeMap, SafeReduce and SafeFind should return an error when the user function
  panics on an element. When the panic value is a string, the panic raised by the wrapper's
  type assertion leaves each of the three functions: none of them returns.
\<close>

theorem Safe_loops_string_panic_escapes:
  "fst (SafeMap (0::int) [1::int] (\<lambda>x. Panics (PanicOther ''boom''))) =
     Panics (PanicError (RuntimeError TypeAssertionFailed)) \<and>
   fst (SafeReduce (0::int) [1::int] (\<lambda>a x. Panics (PanicOther ''boom'')) 0) =
     Panics (PanicError (RuntimeError TypeAssertionFailed)) \<and>
   fst (SafeFind (0::int) [1] (\<lambda>x. Panics (PanicOther ''boom''))) =
     Panics (PanicError (RuntimeError TypeAssertionFailed))"
  by (simp add: SafeMap_def SafeReduce_def SafeFind_def)

section \<open>SafeMapSeq\<close>

lemma SafeMapSeq_first_error:
  assumes "\<forall>x \<in> set pre. succeeds (mapFunc x)" and "fails_with (mapFunc x) e"
  shows "SafeMapSeq zero (pre @ x # post) mapFunc yield s = SafeMapSeq zero pre mapFunc yield s"
  using assms
proof (induction pre arbitrary: s)
  case Nil
  then obtain v where "SafeExcecute zero (mapFunc x) = Returns v (Some e)"
    using fails_with_SafeExcecute [of "mapFunc x" e zero] by blast
  then show ?case by simp
next
  case (Cons y pre)
  then show ?case by (simp split: outcome.splits prod.splits)
qed

text \<open>
  C9. A failure of the mapping function should end the output sequence silently, as if
  the input were exhausted. When the mapping function panics with a string, the consumer
  of the output sequence receives a panic, which exhaustion of the input never produces.
\<close>

theorem SafeMapSeq_string_panic_reaches_consumer:
  "SafeMapSeq (0::int) [1::int] (\<lambda>x. Panics (PanicOther ''boom'')) collect [] =
     Inl (PanicError (RuntimeError TypeAssertionFailed)) \<and>
   SafeMapSeq (0::int) ([]::int list) (\<lambda>x. Panics (PanicOther ''boom'')) collect [] = Inr []"
  by simp

section \<open>Reverse\<close>

text \<open>
  What the loop computes: a slice of odd length is reversed; a non-empty slice of even
  length is reversed except for its two middle elements, which keep their places; the
  empty slice makes the function panic.
\<close>

lemma Reverse_loop_stop:
  "length S div 2 < i \<Longrightarrow> Reverse_loop S i = Inr S"
  by (subst Reverse_loop.simps) simp

lemma Reverse_loop_swap:
  assumes "i \<le> length S div 2" and "0 < length S"
  shows "Reverse_loop S i =
           Reverse_loop (S[i := S ! (length S - 1 - i), length S - 1 - i := S ! i]) (i + 1)"
proof -
  have "i < length S" using assms by presburger
  moreover have "nat (int (length S) - int i - 1) = length S - 1 - i" by simp
  ultimately show ?thesis
    using assms by (subst Reverse_loop.simps) (simp add: Let_def)
qed

lemma if_flip:
  "t = (if a then x' else y') \<Longrightarrow> (a \<longleftrightarrow> \<not> b) \<Longrightarrow> x' = y \<Longrightarrow> y' = x \<Longrightarrow>
     t = (if b then x else y)"
  by simp

lemma if_same:
  "t = (if a then x' else y') \<Longrightarrow> x' = x \<Longrightarrow> y' = y \<Longrightarrow> (a \<longleftrightarrow> b) \<Longrightarrow>
     t = (if b then x else y)"
  by simp

lemma Reverse_loop_odd:
  assumes "length S = 2 * m + 1" and "i \<le> m"
  shows "\<exists>T. Reverse_loop S i = Inr T \<and> length T = length S \<and>
           (\<forall>p < length S. T ! p = (if i \<le> p \<and> p + i < length S then S ! (2 * m - p) else S ! p))"
  using assms
proof (induction "m - i" arbitrary: i S)
  case 0
  then have i: "i = m" by simp
  have "Reverse_loop S i =
          Reverse_loop (S[i := S ! (length S - 1 - i), length S - 1 - i := S ! i]) (i + 1)"
    using 0 by (intro Reverse_loop_swap) simp_all
  also have "S[i := S ! (length S - 1 - i), length S - 1 - i := S ! i] = S"
    using "0.prems"(1) i by simp
  also have "Reverse_loop S (i + 1) = Inr S"
    using "0.prems"(1) i by (intro Reverse_loop_stop) simp
  finally have r: "Reverse_loop S i = Inr S" .
  have "S ! p = (if i \<le> p \<and> p + i < length S then S ! (2 * m - p) else S ! p)"
    if "p < length S" for p
  proof (cases "i \<le> p \<and> p + i < length S")
    case True
    then have "p = m" using i "0.prems"(1) by simp
    then show ?thesis by simp
  next
    case False
    show ?thesis unfolding if_not_P [OF False] by (rule refl)
  qed
  with r show ?case by simp
next
  case (Suc k)
  define j where "j = 2 * m - i"
  define S' where "S' = S[i := S ! j, j := S ! i]"
  have lt: "i < m" using Suc.hyps(2) by simp
  have n: "length S = 2 * m + 1" by (rule Suc.prems(1))
  have ij: "i < j" "j < length S" using lt n by (simp_all add: j_def)
  have len: "length S' = 2 * m + 1" using n by (simp add: S'_def)
  have S'_i: "S' ! i = S ! j" using ij by (simp add: S'_def nth_list_update)
  have S'_j: "S' ! j = S ! i" using ij by (simp add: S'_def)
  have S'_q: "S' ! q = S ! q" if "q \<noteq> i" "q \<noteq> j" for q using that by (simp add: S'_def)
  have "length S - 1 - i = j" using n by (simp add: j_def)
  then have step: "Reverse_loop S i = Reverse_loop S' (i + 1)"
    unfolding S'_def using Reverse_loop_swap [of i S] lt n by simp
  have "k = m - (i + 1)" using Suc.hyps(2) by simp
  moreover note len
  moreover have "i + 1 \<le> m" using lt by simp
  ultimately have "\<exists>T. Reverse_loop S' (i + 1) = Inr T \<and> length T = length S' \<and>
           (\<forall>p < length S'. T ! p =
              (if i + 1 \<le> p \<and> p + (i + 1) < length S' then S' ! (2 * m - p) else S' ! p))"
    by (rule Suc.hyps(1))
  then obtain T where T: "Reverse_loop S' (i + 1) = Inr T" "length T = length S'"
    and Tp: "\<And>p. p < length S' \<Longrightarrow> T ! p =
              (if i + 1 \<le> p \<and> p + (i + 1) < length S' then S' ! (2 * m - p) else S' ! p)"
    by blast
  have "T ! p = (if i \<le> p \<and> p + i < length S then S ! (2 * m - p) else S ! p)"
    if p: "p < length S" for p
  proof -
    have tp: "T ! p =
        (if i + 1 \<le> p \<and> p + (i + 1) < length S' then S' ! (2 * m - p) else S' ! p)"
      using p n len by (intro Tp) simp
    consider "p = i" | "p = j" | "p \<noteq> i" "p \<noteq> j" by blast
    then show ?thesis
    proof cases
      case 1
      have "(i + 1 \<le> p \<and> p + (i + 1) < length S') \<longleftrightarrow> \<not> (i \<le> p \<and> p + i < length S)"
        using 1 lt n len by simp
      moreover have "S' ! (2 * m - p) = S ! p" using 1 S'_j by (simp add: j_def)
      moreover have "S' ! p = S ! (2 * m - p)" using 1 S'_i by (simp add: j_def)
      ultimately show ?thesis by (rule if_flip [OF tp])
    next
      case 2
      have e: "2 * m - p = i" using 2 lt by (simp add: j_def)
      have "(i + 1 \<le> p \<and> p + (i + 1) < length S') \<longleftrightarrow> \<not> (i \<le> p \<and> p + i < length S)"
        using 2 lt n len by (simp add: j_def)
      moreover have "S' ! (2 * m - p) = S ! p" using 2 S'_i e by simp
      moreover have "S' ! p = S ! (2 * m - p)" using 2 S'_j e by simp
      ultimately show ?thesis by (rule if_flip [OF tp])
    next
      case 3
      have "2 * m - p \<noteq> i" "2 * m - p \<noteq> j" using 3 p n lt unfolding j_def by arith+
      then have "S' ! (2 * m - p) = S ! (2 * m - p)" by (rule S'_q)
      moreover have "S' ! p = S ! p" using 3 by (rule S'_q)
      moreover have "(i + 1 \<le> p \<and> p + (i + 1) < length S') \<longleftrightarrow> (i \<le> p \<and> p + i < length S)"
        using 3 lt n len unfolding j_def by arith
      ultimately show ?thesis by (rule if_same [OF tp])
    qed
  qed
  with step T len n show ?case by simp
qed


lemma Reverse_loop_even:
  assumes "length S = 2 * m" and "0 < m" and "i \<le> m"
  shows "\<exists>T. Reverse_loop S i = Inr T \<and> length T = length S \<and>
           (\<forall>p < length S. T ! p =
              (if (i \<le> p \<and> p + i < length S \<and> p \<noteq> m \<and> Suc p \<noteq> m)
                  \<or> (i = m \<and> (p = m \<or> Suc p = m))
               then S ! (2 * m - 1 - p) else S ! p))"
  using assms
proof (induction "m - i" arbitrary: i S)
  case 0
  then have i: "i = m" by simp
  define S' where "S' = S[m := S ! (m - 1), m - 1 := S ! m]"
  have n: "length S = 2 * m" by (rule "0.prems"(1))
  have m: "0 < m" by (rule "0.prems"(2))
  have "length S - 1 - i = m - 1" using n i by simp
  then have "Reverse_loop S i = Reverse_loop S' (i + 1)"
    unfolding S'_def using Reverse_loop_swap [of i S] n m i by simp
  also have "\<dots> = Inr S'"
    using n i by (intro Reverse_loop_stop) (simp add: S'_def)
  finally have r: "Reverse_loop S i = Inr S'" .
  have len: "length S' = length S" by (simp add: S'_def)
  have "S' ! p = (if (i \<le> p \<and> p + i < length S \<and> p \<noteq> m \<and> Suc p \<noteq> m)
                  \<or> (i = m \<and> (p = m \<or> Suc p = m))
               then S ! (2 * m - 1 - p) else S ! p)" if p: "p < length S" for p
  proof -
    consider "p = m" | "Suc p = m" | "p \<noteq> m" "Suc p \<noteq> m" by blast
    then show ?thesis
    proof cases
      case 1
      have c: "(i \<le> p \<and> p + i < length S \<and> p \<noteq> m \<and> Suc p \<noteq> m)
                  \<or> (i = m \<and> (p = m \<or> Suc p = m))" using 1 i by simp
      have "S' ! p = S ! (m - 1)" using 1 n m by (simp add: S'_def)
      moreover have "2 * m - 1 - p = m - 1" using 1 by simp
      ultimately show ?thesis unfolding if_P [OF c] by simp
    next
      case 2
      have c: "(i \<le> p \<and> p + i < length S \<and> p \<noteq> m \<and> Suc p \<noteq> m)
                  \<or> (i = m \<and> (p = m \<or> Suc p = m))" using 2 i by simp
      have "p = m - 1" using 2 by simp
      then have "S' ! p = S ! m" using n m by (simp add: S'_def)
      moreover have "2 * m - 1 - p = m" using 2 by arith
      ultimately show ?thesis unfolding if_P [OF c] by simp
    next
      case 3
      have c: "\<not> ((i \<le> p \<and> p + i < length S \<and> p \<noteq> m \<and> Suc p \<noteq> m)
                  \<or> (i = m \<and> (p = m \<or> Suc p = m)))" using 3 i n by simp
      have "p \<noteq> m - 1" using 3 m by arith
      then have "S' ! p = S ! p" using 3 by (simp add: S'_def)
      then show ?thesis unfolding if_not_P [OF c] .
    qed
  qed
  with r len show ?case by simp
next
  case (Suc k)
  define j where "j = 2 * m - 1 - i"
  define S' where "S' = S[i := S ! j, j := S ! i]"
  have lt: "i < m" using Suc.hyps(2) by simp
  have n: "length S = 2 * m" by (rule Suc.prems(1))
  have m: "0 < m" by (rule Suc.prems(2))
  have ij: "i < j" "j < length S" using lt n unfolding j_def by arith+
  have len: "length S' = 2 * m" using n by (simp add: S'_def)
  have S'_i: "S' ! i = S ! j" using ij by (simp add: S'_def nth_list_update)
  have S'_j: "S' ! j = S ! i" using ij by (simp add: S'_def)
  have S'_q: "S' ! q = S ! q" if "q \<noteq> i" "q \<noteq> j" for q using that by (simp add: S'_def)
  have "length S - 1 - i = j" using n by (simp add: j_def)
  then have step: "Reverse_loop S i = Reverse_loop S' (i + 1)"
    unfolding S'_def using Reverse_loop_swap [of i S] lt n by simp
  have "k = m - (i + 1)" using Suc.hyps(2) by simp
  moreover note len m
  moreover have "i + 1 \<le> m" using lt by simp
  ultimately have "\<exists>T. Reverse_loop S' (i + 1) = Inr T \<and> length T = length S' \<and>
           (\<forall>p < length S'. T ! p =
              (if (i + 1 \<le> p \<and> p + (i + 1) < length S' \<and> p \<noteq> m \<and> Suc p \<noteq> m)
                  \<or> (i + 1 = m \<and> (p = m \<or> Suc p = m))
               then S' ! (2 * m - 1 - p) else S' ! p))"
    by (rule Suc.hyps(1))
  then obtain T where T: "Reverse_loop S' (i + 1) = Inr T" "length T = length S'"
    and Tp: "\<And>p. p < length S' \<Longrightarrow> T ! p =
              (if (i + 1 \<le> p \<and> p + (i + 1) < length S' \<and> p \<noteq> m \<and> Suc p \<noteq> m)
                  \<or> (i + 1 = m \<and> (p = m \<or> Suc p = m))
               then S' ! (2 * m - 1 - p) else S' ! p)"
    by blast
  have "T ! p = (if (i \<le> p \<and> p + i < length S \<and> p \<noteq> m \<and> Suc p \<noteq> m)
                  \<or> (i = m \<and> (p = m \<or> Suc p = m))
               then S ! (2 * m - 1 - p) else S ! p)"
    if p: "p < length S" for p
  proof -
    have tp: "T ! p =
        (if (i + 1 \<le> p \<and> p + (i + 1) < length S' \<and> p \<noteq> m \<and> Suc p \<noteq> m)
                  \<or> (i + 1 = m \<and> (p = m \<or> Suc p = m))
         then S' ! (2 * m - 1 - p) else S' ! p)"
      using p n len by (intro Tp) simp
    consider "p = i" | "p = j" | "p \<noteq> i" "p \<noteq> j" by blast
    then show ?thesis
    proof cases
      case 1
      have "((i + 1 \<le> p \<and> p + (i + 1) < length S' \<and> p \<noteq> m \<and> Suc p \<noteq> m)
                  \<or> (i + 1 = m \<and> (p = m \<or> Suc p = m))) \<longleftrightarrow>
            \<not> ((i \<le> p \<and> p + i < length S \<and> p \<noteq> m \<and> Suc p \<noteq> m)
                  \<or> (i = m \<and> (p = m \<or> Suc p = m)))"
        using 1 lt n len by auto
      moreover have "S' ! (2 * m - 1 - p) = S ! p" using 1 S'_j by (simp add: j_def)
      moreover have "S' ! p = S ! (2 * m - 1 - p)" using 1 S'_i by (simp add: j_def)
      ultimately show ?thesis by (rule if_flip [OF tp])
    next
      case 2
      have e: "2 * m - 1 - p = i" using 2 lt unfolding j_def by arith
      have "((i + 1 \<le> p \<and> p + (i + 1) < length S' \<and> p \<noteq> m \<and> Suc p \<noteq> m)
                  \<or> (i + 1 = m \<and> (p = m \<or> Suc p = m))) \<longleftrightarrow>
            \<not> ((i \<le> p \<and> p + i < length S \<and> p \<noteq> m \<and> Suc p \<noteq> m)
                  \<or> (i = m \<and> (p = m \<or> Suc p = m)))"
        using 2 lt n len unfolding j_def by arith
      moreover have "S' ! (2 * m - 1 - p) = S ! p" using 2 S'_i e by simp
      moreover have "S' ! p = S ! (2 * m - 1 - p)" using 2 S'_j e by simp
      ultimately show ?thesis by (rule if_flip [OF tp])
    next
      case 3
      have "2 * m - 1 - p \<noteq> i" "2 * m - 1 - p \<noteq> j" using 3 p n lt unfolding j_def by arith+
      then have "S' ! (2 * m - 1 - p) = S ! (2 * m - 1 - p)" by (rule S'_q)
      moreover have "S' ! p = S ! p" using 3 by (rule S'_q)
      moreover have "((i + 1 \<le> p \<and> p + (i + 1) < length S' \<and> p \<noteq> m \<and> Suc p \<noteq> m)
                  \<or> (i + 1 = m \<and> (p = m \<or> Suc p = m))) \<longleftrightarrow>
            ((i \<le> p \<and> p + i < length S \<and> p \<noteq> m \<and> Suc p \<noteq> m)
                  \<or> (i = m \<and> (p = m \<or> Suc p = m)))"
        using 3 lt n len unfolding j_def by arith
      ultimately show ?thesis by (rule if_same [OF tp])
    qed
  qed
  with step T len n show ?case by simp
qed

lemma Reverse_odd_length:
  assumes "odd (length xs)"
  shows "Reverse xs = Inr (rev xs)"
proof -
  obtain m where m: "length xs = 2 * m + 1" using assms by (auto elim: oddE)
  then obtain T where T: "Reverse_loop xs 0 = Inr T" "length T = length xs"
    "\<forall>p < length xs. T ! p = xs ! (length xs - 1 - p)"
    using Reverse_loop_odd [of xs m 0] by auto
  have "T = rev xs"
  proof (rule nth_equalityI)
    show "length T = length (rev xs)" using T(2) by simp
  next
    fix p assume "p < length T"
    then show "T ! p = rev xs ! p" using T(2,3) by (simp add: rev_nth)
  qed
  with T(1) show ?thesis by (simp add: Reverse_def)
qed

lemma Reverse_even_length:
  assumes "even (length xs)" and "xs \<noteq> []"
  shows "Reverse xs =
           Inr ((rev xs)[length xs div 2 - 1 := xs ! (length xs div 2 - 1),
                         length xs div 2 := xs ! (length xs div 2)])"
proof -
  obtain m where m: "length xs = 2 * m" using assms(1) by (auto elim: evenE)
  with assms(2) have m0: "0 < m" by (cases m) simp_all
  obtain T where T: "Reverse_loop xs 0 = Inr T" "length T = length xs"
    "\<forall>p < length xs. T ! p =
       (if p \<noteq> m \<and> Suc p \<noteq> m then xs ! (length xs - 1 - p) else xs ! p)"
    using Reverse_loop_even [of xs m 0] m m0 by auto
  have "T = (rev xs)[m - 1 := xs ! (m - 1), m := xs ! m]"
  proof (rule nth_equalityI)
    show "length T = length ((rev xs)[m - 1 := xs ! (m - 1), m := xs ! m])"
      using T(2) by simp
  next
    fix p assume "p < length T"
    then have p: "p < 2 * m" using T(2) m by simp
    then show "T ! p = (rev xs)[m - 1 := xs ! (m - 1), m := xs ! m] ! p"
      using T(3) [rule_format, of p] m m0
      by (auto simp: nth_list_update rev_nth)
  qed
  with T(1) m show ?thesis by (simp add: Reverse_def)
qed

lemma Reverse_empty: "Reverse [] = Inl (PanicError (RuntimeError IndexOutOfRange))"
  by (simp add: Reverse_def Reverse_loop.simps)

text \<open>
  C8. Reverse should put the element of position \<open>len - 1 - i\<close> at position \<open>i\<close>. The
  loop bound \<^verbatim>\<open>i <= len(slice)/2\<close> runs one iteration too many: on a slice of even
  length the middle pair is swapped back (for two elements the result is the input), and
  on the empty slice the first iteration indexes position \<open>-1\<close>.
\<close>

theorem Reverse_even_length_wrong:
  "Reverse [1, 2 :: int] = Inr [1, 2] \<and>
   Reverse [1, 2, 3, 4 :: int] = Inr [4, 2, 3, 1] \<and>
   Reverse ([] :: int list) = Inl (PanicError (RuntimeError IndexOutOfRange))"
  by code_simp

section \<open>RemoveElement\<close>

lemma RemoveElement_loop_all:
  assumes "n \<le> i" and "i \<le> length slice"
  shows "RemoveElement_loop slice v (-1) i c n =
           Inr (take n slice @ filter (\<lambda>y. y \<noteq> v) (drop i slice))"
  using assms
proof (induction slice v "-1 :: int" i c n rule: RemoveElement_loop.induct)
  case (1 slice element i cnt newSliceLen)
  show ?case
  proof (cases "i < length slice")
    case False
    with "1.prems" show ?thesis by (subst RemoveElement_loop.simps) simp
  next
    case True
    then have d: "drop i slice = slice ! i # drop (Suc i) slice"
      by (simp add: Cons_nth_drop_Suc)
    show ?thesis
    proof (cases "slice ! i = element")
      case eq: True
      have "RemoveElement_loop slice element (-1) i cnt newSliceLen =
              RemoveElement_loop slice element (-1) (i + 1) (cnt + 1) newSliceLen"
        using True eq by (subst RemoveElement_loop.simps) (simp add: Let_def)
      also have "\<dots> = Inr (take newSliceLen slice @
                   filter (\<lambda>y. y \<noteq> element) (drop (i + 1) slice))"
        by (rule "1.hyps"(1) [OF True refl]) (use "1.prems" True eq in simp_all)
      finally show ?thesis using eq by (simp add: d)
    next
      case ne: False
      have lt: "newSliceLen < length slice" using "1.prems" True by simp
      let ?slice' = "slice[newSliceLen := slice ! i]"
      have "RemoveElement_loop slice element (-1) i cnt newSliceLen =
              RemoveElement_loop ?slice' element (-1) (i + 1) cnt (newSliceLen + 1)"
        using True ne lt by (subst RemoveElement_loop.simps) (simp add: Let_def)
      also have "\<dots> = Inr (take (newSliceLen + 1) ?slice' @
                   filter (\<lambda>y. y \<noteq> element) (drop (i + 1) ?slice'))"
        by (rule "1.hyps"(2) [OF True refl _ lt]) (use "1.prems" True ne in simp_all)
      also have "take (newSliceLen + 1) ?slice' = take newSliceLen slice @ [slice ! i]"
        using lt by (simp add: take_Suc_conv_app_nth)
      also have "drop (i + 1) ?slice' = drop (i + 1) slice"
        using "1.prems" by simp
      finally show ?thesis using ne by (simp add: d)
    qed
  qed
qed

lemma RemoveElement_loop_limit:
  assumes "n \<le> i" and "i \<le> length slice" and "0 < limit" and "0 \<le> c" and "c \<le> limit"
  shows "RemoveElement_loop slice v limit i c n =
           Inr (take n slice @ remove_leftmost (nat (limit - c)) v (drop i slice))"
  using assms
proof (induction slice v limit i c n rule: RemoveElement_loop.induct)
  case (1 slice element limit i cnt newSliceLen)
  have l: "limit \<noteq> -1" using "1.prems" by simp
  show ?case
  proof (cases "i < length slice")
    case False
    with "1.prems" show ?thesis
      by (subst RemoveElement_loop.simps) (cases "nat (limit - cnt)"; simp)
  next
    case True
    then have d: "drop i slice = slice ! i # drop (Suc i) slice"
      by (simp add: Cons_nth_drop_Suc)
    show ?thesis
    proof (cases "slice ! i = element \<and> cnt < limit")
      case rm: True
      have "RemoveElement_loop slice element limit i cnt newSliceLen =
              RemoveElement_loop slice element limit (i + 1) (cnt + 1) newSliceLen"
        using True rm by (subst RemoveElement_loop.simps) (simp add: Let_def)
      also have "\<dots> = Inr (take newSliceLen slice @
                   remove_leftmost (nat (limit - (cnt + 1))) element (drop (i + 1) slice))"
        by (rule "1.IH"(1) [OF True refl]) (use "1.prems" True rm in simp_all)
      also have "remove_leftmost (nat (limit - (cnt + 1))) element (drop (i + 1) slice) =
                 remove_leftmost (nat (limit - cnt)) element (drop i slice)"
      proof -
        have "nat (limit - cnt) = Suc (nat (limit - (cnt + 1)))"
          using rm by linarith
        then show ?thesis using rm by (simp add: d)
      qed
      finally show ?thesis .
    next
      case keep: False
      have lt: "newSliceLen < length slice" using "1.prems" True by simp
      let ?slice' = "slice[newSliceLen := slice ! i]"
      have "RemoveElement_loop slice element limit i cnt newSliceLen =
              RemoveElement_loop ?slice' element limit (i + 1) cnt (newSliceLen + 1)"
        using True keep lt l by (subst RemoveElement_loop.simps) (auto simp add: Let_def)
      also have "\<dots> = Inr (take (newSliceLen + 1) ?slice' @
                   remove_leftmost (nat (limit - cnt)) element (drop (i + 1) ?slice'))"
        by (rule "1.IH"(2) [OF True refl _ lt]) (use "1.prems" True keep l in auto)
      also have "take (newSliceLen + 1) ?slice' = take newSliceLen slice @ [slice ! i]"
        using lt by (simp add: take_Suc_conv_app_nth)
      also have "drop (i + 1) ?slice' = drop (i + 1) slice"
        using "1.prems" by simp
      finally have step: "RemoveElement_loop slice element limit i cnt newSliceLen =
          Inr ((take newSliceLen slice @ [slice ! i]) @
               remove_leftmost (nat (limit - cnt)) element (drop (i + 1) slice))" .
      have "slice ! i # remove_leftmost (nat (limit - cnt)) element (drop (i + 1) slice) =
                 remove_leftmost (nat (limit - cnt)) element (drop i slice)"
      proof (cases "nat (limit - cnt)")
        case 0
        then show ?thesis by (simp add: d)
      next
        case (Suc k)
        then have "cnt < limit" by simp
        with keep have "slice ! i \<noteq> element" by simp
        then show ?thesis using Suc by (simp add: d)
      qed
      with step show ?thesis by simp
    qed
  qed
qed

lemma count_remove_leftmost:
  "count_list (remove_leftmost k v xs) v = count_list xs v - k"
  by (induction k v xs rule: remove_leftmost.induct) auto

lemma filter_remove_leftmost:
  "filter (\<lambda>y. y \<noteq> v) (remove_leftmost k v xs) = filter (\<lambda>y. y \<noteq> v) xs"
  by (induction k v xs rule: remove_leftmost.induct) auto

lemma remove_leftmost_prefix:
  "\<exists>m \<le> length xs. remove_leftmost k v xs = filter (\<lambda>y. y \<noteq> v) (take m xs) @ drop m xs \<and>
       count_list (take m xs) v = min k (count_list xs v)"
proof (induction k v xs rule: remove_leftmost.induct)
  case (1 v xs)
  show ?case by (rule exI [of _ 0]) simp
next
  case (2 k v)
  show ?case by simp
next
  case (3 k v x xs)
  show ?case
  proof (cases "x = v")
    case True
    with 3 obtain m where m: "m \<le> length xs"
      "remove_leftmost k v xs = filter (\<lambda>y. y \<noteq> v) (take m xs) @ drop m xs"
      "count_list (take m xs) v = min k (count_list xs v)" by auto
    show ?thesis
      by (rule exI [of _ "Suc m"]) (use True m in simp)
  next
    case False
    with 3 obtain m where m: "m \<le> length xs"
      "remove_leftmost (Suc k) v xs = filter (\<lambda>y. y \<noteq> v) (take m xs) @ drop m xs"
      "count_list (take m xs) v = min (Suc k) (count_list xs v)" by auto
    show ?thesis
      by (rule exI [of _ "Suc m"]) (use False m in simp)
  qed
qed

lemma RemoveElement_nil: "RemoveElement xs v None = Inr (filter (\<lambda>y. y \<noteq> v) xs)"
  using RemoveElement_loop_all [of 0 0 xs v 0] by (simp add: RemoveElement_def)

lemma RemoveElement_positive:
  "0 < k \<Longrightarrow> RemoveElement xs v (Some k) = Inr (remove_leftmost (nat k) v xs)"
  using RemoveElement_loop_limit [of 0 0 xs k 0 v]
  by (cases "nat k") (auto simp add: RemoveElement_def)

lemma RemoveElement_nonpositive: "k \<le> 0 \<Longrightarrow> RemoveElement xs v (Some k) = Inr xs"
  by (simp add: RemoveElement_def)


lemma Values_collect: "Values xs collect acc = acc @ xs"
  by (induction xs arbitrary: acc) (simp_all add: collect_def)

text \<open>
  The lazy variant RemoveElementSeq, on its first drive: the consumer receives the input
  without its leftmost \<open>limit\<close> occurrences of the element. A count of \<open>-1\<close> stands for
  \<open>2^63 - 1\<close> removals, every other negative count removes nothing.
\<close>

lemma RemoveElementSeq_Values:
  "snd (RemoveElementSeq xs v yield limit s) = Values (remove_leftmost (nat limit) v xs) yield s"
proof (induction xs arbitrary: limit s)
  case Nil
  show ?case by (cases "nat limit") simp_all
next
  case (Cons x xs)
  show ?case
  proof (cases "x = v \<and> limit > 0")
    case True
    then have "nat limit = Suc (nat (limit - 1))" by linarith
    then have "remove_leftmost (nat limit) v (x # xs) = remove_leftmost (nat (limit - 1)) v xs"
      using True by simp
    then show ?thesis using True Cons.IH [of "limit - 1" s] by simp
  next
    case False
    have "remove_leftmost (nat limit) v (x # xs) = x # remove_leftmost (nat limit) v xs"
    proof (cases "nat limit")
      case 0
      then show ?thesis by simp
    next
      case (Suc k)
      then have "0 < limit" by linarith
      with False have "x \<noteq> v" by simp
      then show ?thesis using Suc by simp
    qed
    moreover obtain continue s' where y: "yield x s = (continue, s')" by (cases "yield x s")
    moreover have "RemoveElementSeq (x # xs) v yield limit s =
        (if \<not> continue then (limit, s') else RemoveElementSeq xs v yield limit s')"
      using False y by auto
    ultimately show ?thesis using Cons.IH [of limit s'] by simp
  qed
qed

lemma RemoveElementSeq_negative:
  "n < - 1 \<Longrightarrow> snd (RemoveElementSeq xs v collect (RemoveElementSeq_limit n) []) = xs"
  by (simp add: RemoveElementSeq_Values RemoveElementSeq_limit_def Values_collect)

lemma RemoveElementSeq_minus_one:
  assumes "length xs < 2 ^ 63"
  shows "snd (RemoveElementSeq xs v collect (RemoveElementSeq_limit (- 1)) []) =
           filter (\<lambda>y. y \<noteq> v) xs"
proof -
  have "remove_leftmost k v xs = filter (\<lambda>y. y \<noteq> v) xs" if "length xs \<le> k" for k
    using that by (induction k v xs rule: remove_leftmost.induct) auto
  moreover have "length xs \<le> nat (2 ^ 63 - 1)" using assms by simp
  ultimately show ?thesis
    by (simp add: RemoveElementSeq_Values RemoveElementSeq_limit_def Values_collect)
qed

text \<open>
  C3, as amended. With a nil pointer RemoveElement removes every occurrence of \<open>v\<close>. With a
  pointer to \<open>k \<le> 0\<close> (zero or negative) it returns the slice unchanged. With a pointer
  to \<open>k > 0\<close> the result has \<open>max(0, count(v) - k)\<close> occurrences of \<open>v\<close>, the other
  elements keep their relative order, and the removed occurrences are the leftmost ones:
  the result is the input with every \<open>v\<close> deleted from a prefix that holds
  \<open>min(k, count(v))\<close> of them.
\<close>

theorem RemoveElement_occurrences:
  "RemoveElement xs v None = Inr (filter (\<lambda>y. y \<noteq> v) xs) \<and>
   (k \<le> 0 \<longrightarrow> RemoveElement xs v (Some k) = Inr xs) \<and>
   (0 < k \<longrightarrow>
      (\<exists>r m. RemoveElement xs v (Some k) = Inr r \<and>
         count_list r v = count_list xs v - nat k \<and>
         filter (\<lambda>y. y \<noteq> v) r = filter (\<lambda>y. y \<noteq> v) xs \<and>
         m \<le> length xs \<and>
         r = filter (\<lambda>y. y \<noteq> v) (take m xs) @ drop m xs \<and>
         count_list (take m xs) v = min (nat k) (count_list xs v)))"
proof (intro conjI impI)
  show "RemoveElement xs v None = Inr (filter (\<lambda>y. y \<noteq> v) xs)"
    by (rule RemoveElement_nil)
  show "RemoveElement xs v (Some k) = Inr xs" if "k \<le> 0"
    using that by (rule RemoveElement_nonpositive)
  show "\<exists>r m. RemoveElement xs v (Some k) = Inr r \<and>
         count_list r v = count_list xs v - nat k \<and>
         filter (\<lambda>y. y \<noteq> v) r = filter (\<lambda>y. y \<noteq> v) xs \<and>
         m \<le> length xs \<and>
         r = filter (\<lambda>y. y \<noteq> v) (take m xs) @ drop m xs \<and>
         count_list (take m xs) v = min (nat k) (count_list xs v)" if "0 < k"
  proof -
    obtain m where m: "m \<le> length xs"
      "remove_leftmost (nat k) v xs = filter (\<lambda>y. y \<noteq> v) (take m xs) @ drop m xs"
      "count_list (take m xs) v = min (nat k) (count_list xs v)"
      using remove_leftmost_prefix [of xs "nat k" v] by blast
    show ?thesis
    proof (intro exI conjI)
      show "RemoveElement xs v (Some k) = Inr (remove_leftmost (nat k) v xs)"
        using that by (rule RemoveElement_positive)
      show "count_list (remove_leftmost (nat k) v xs) v = count_list xs v - nat k"
        by (rule count_remove_leftmost)
      show "filter (\<lambda>y. y \<noteq> v) (remove_leftmost (nat k) v xs) = filter (\<lambda>y. y \<noteq> v) xs"
        by (rule filter_remove_leftmost)
    qed (rule m)+
  qed
qed

text \<open>
  C3 as stated fails for a negative count behind a non-nil pointer: the guard
  \<^verbatim>\<open>*occurrencesToDelete <= 0\<close> returns the slice as it is, so both occurrences of 5
  remain.
\<close>

theorem RemoveElement_negative_counterexample:
  "RemoveElement [5, 1, 5 :: int] 5 (Some (- 1)) = Inr [5, 1, 5] \<and>
   count_list [5, 1, 5 :: int] 5 \<noteq> 0"
  by (simp add: RemoveElement_def)

theorem RemoveElement_occurrences_witness:
  "(0 :: int) < 2 \<and>
   RemoveElement [1, 2, 3, 4, 5, 6, 7, 8, 9, 10, 5, 5, 5 :: int] 5 (Some 2) =
     Inr [1, 2, 3, 4, 6, 7, 8, 9, 10, 5, 5] \<and>
   (- 1 :: int) \<le> 0 \<and>
   RemoveElement [1, 2, 3, 4, 5, 6, 7, 8, 9, 10, 5, 5, 5 :: int] 5 (Some (- 1)) =
     Inr [1, 2, 3, 4, 5, 6, 7, 8, 9, 10, 5, 5, 5] \<and>
   RemoveElement [1, 2, 3, 4, 5, 6, 7, 8, 9, 10, 5, 5, 5 :: int] 5 None =
     Inr [1, 2, 3, 4, 6, 7, 8, 9, 10]"
proof -
  have e: "RemoveElement [1, 2, 3, 4, 5, 6, 7, 8, 9, 10, 5, 5, 5 :: int] 5 (Some 2) =
     Inr [1, 2, 3, 4, 6, 7, 8, 9, 10, 5, 5]"
    by code_simp
  show ?thesis
    using e RemoveElement_occurrences [of "[1, 2, 3, 4, 5, 6, 7, 8, 9, 10, 5, 5, 5 :: int]" 5 "- 1"]
      RemoveElement_occurrences [of "[1, 2, 3, 4, 5, 6, 7, 8, 9, 10, 5, 5, 5 :: int]" 5 2]
    by simp
qed

section \<open>Distinct\<close>

lemma filter_first_occurrences_set [simp]: "set (first_occurrences xs) = set xs"
  by (induction xs) auto

lemma distinct_first_occurrences [simp]: "distinct (first_occurrences xs)"
  by (induction xs) auto

lemma first_occurrences_distinct: "distinct xs \<Longrightarrow> first_occurrences xs = xs"
  by (induction xs) (auto simp: filter_id_conv)

lemma Distinct_loop_inv:
  assumes "n \<le> i" and "i \<le> length slice"
  shows "Distinct_loop slice i seen n =
           Inr (take n slice @ filter (\<lambda>y. seen y = None) (first_occurrences (drop i slice)))"
  using assms
proof (induction slice i seen n rule: Distinct_loop.induct)
  case (1 slice i seenItems newSliceLen)
  show ?case
  proof (cases "i < length slice")
    case False
    with "1.prems" show ?thesis by (subst Distinct_loop.simps) simp
  next
    case True
    then have d: "drop i slice = slice ! i # drop (Suc i) slice"
      by (simp add: Cons_nth_drop_Suc)
    show ?thesis
    proof (cases "seenItems (slice ! i) \<noteq> None")
      case seen: True
      have "Distinct_loop slice i seenItems newSliceLen =
              Distinct_loop slice (i + 1) seenItems newSliceLen"
        using True seen by (subst Distinct_loop.simps) (simp add: Let_def)
      also have "\<dots> = Inr (take newSliceLen slice @
                   filter (\<lambda>y. seenItems y = None) (first_occurrences (drop (i + 1) slice)))"
        by (rule "1.IH"(1) [OF True refl seen]) (use "1.prems" True in simp_all)
      also have "filter (\<lambda>y. seenItems y = None) (first_occurrences (drop (i + 1) slice)) =
                 filter (\<lambda>y. seenItems y = None) (first_occurrences (drop i slice))"
        using seen by (auto simp: d intro: filter_cong)
      finally show ?thesis .
    next
      case unseen: False
      have lt: "newSliceLen < length slice" using "1.prems" True by simp
      let ?slice' = "slice[newSliceLen := slice ! i]"
      have "Distinct_loop slice i seenItems newSliceLen =
              Distinct_loop ?slice' (i + 1) (seenItems(slice ! i \<mapsto> ())) (newSliceLen + 1)"
        using True unseen lt by (subst Distinct_loop.simps) (simp add: Let_def)
      also have "\<dots> = Inr (take (newSliceLen + 1) ?slice' @
                   filter (\<lambda>y. (seenItems(slice ! i \<mapsto> ())) y = None)
                     (first_occurrences (drop (i + 1) ?slice')))"
        by (rule "1.IH"(2) [OF True refl unseen lt]) (use "1.prems" True in simp_all)
      also have "take (newSliceLen + 1) ?slice' = take newSliceLen slice @ [slice ! i]"
        using lt by (simp add: take_Suc_conv_app_nth)
      also have "drop (i + 1) ?slice' = drop (i + 1) slice"
        using "1.prems" by simp
      also have "filter (\<lambda>y. (seenItems(slice ! i \<mapsto> ())) y = None)
                     (first_occurrences (drop (i + 1) slice)) =
                 filter (\<lambda>y. seenItems y = None)
                   (filter (\<lambda>y. y \<noteq> slice ! i) (first_occurrences (drop (i + 1) slice)))"
        by (auto intro: filter_cong)
      finally show ?thesis using unseen by (simp add: d)
    qed
  qed
qed

lemma Distinct_eq: "Distinct xs = Inr (first_occurrences xs)"
  using Distinct_loop_inv [of 0 0 xs Map.empty] by (simp add: Distinct_def)


lemma first_occurrences_snoc:
  "first_occurrences (xs @ [x]) =
     (if x \<in> set xs then first_occurrences xs else first_occurrences xs @ [x])"
  by (induction xs) auto

lemma first_occurrences_positions:
  "first_occurrences xs =
     map (\<lambda>i. xs ! i) (filter (\<lambda>i. xs ! i \<notin> set (take i xs)) [0..<length xs])"
proof (induction xs rule: rev_induct)
  case Nil
  then show ?case by simp
next
  case (snoc x xs)
  let ?ys = "xs @ [x]"
  let ?P = "\<lambda>i. xs ! i \<notin> set (take i xs)"
  let ?Q = "\<lambda>i. ?ys ! i \<notin> set (take i ?ys)"
  have f: "filter ?Q [0..<length xs] = filter ?P [0..<length xs]"
    by (rule filter_cong) (auto simp: nth_append)
  have m: "map (\<lambda>i. ?ys ! i) (filter ?P [0..<length xs]) =
           map (\<lambda>i. xs ! i) (filter ?P [0..<length xs])"
    by (rule map_cong) (auto simp: nth_append)
  have "[0..<length ?ys] = [0..<length xs] @ [length xs]" by simp
  then have "map (\<lambda>i. ?ys ! i) (filter ?Q [0..<length ?ys]) =
        map (\<lambda>i. ?ys ! i) (filter ?Q [0..<length xs]) @
        map (\<lambda>i. ?ys ! i) (filter ?Q [length xs])"
    by (simp only: filter_append map_append)
  also have "map (\<lambda>i. ?ys ! i) (filter ?Q [0..<length xs]) = first_occurrences xs"
    by (simp only: f m snoc.IH [symmetric])
  also have "map (\<lambda>i. ?ys ! i) (filter ?Q [length xs]) = (if x \<in> set xs then [] else [x])"
    by simp
  finally show ?case
    by (simp add: first_occurrences_snoc)
qed

text \<open>
  C6. Distinct returns without a panic; its result has no duplicates, holds exactly the
  elements of the input, lists them in the order of their first occurrence (it is the
  input restricted to the positions whose element does not occur earlier), and applying
  Distinct to the result gives the same result again.
\<close>

theorem Distinct_first_occurrences:
  "\<exists>r. Distinct xs = Inr r \<and> distinct r \<and> set r = set xs \<and>
       r = map (\<lambda>i. xs ! i) (filter (\<lambda>i. xs ! i \<notin> set (take i xs)) [0..<length xs]) \<and>
       Distinct r = Distinct xs"
proof (intro exI conjI)
  show "Distinct xs = Inr (first_occurrences xs)" by (rule Distinct_eq)
  show "distinct (first_occurrences xs)" by simp
  show "set (first_occurrences xs) = set xs" by simp
  show "first_occurrences xs =
      map (\<lambda>i. xs ! i) (filter (\<lambda>i. xs ! i \<notin> set (take i xs)) [0..<length xs])"
    by (rule first_occurrences_positions)
  show "Distinct (first_occurrences xs) = Distinct xs"
    by (simp add: Distinct_eq first_occurrences_distinct)
qed

theorem Distinct_first_occurrences_witness:
  "Distinct [1, 2, 1, 3, 2 :: int] = Inr [1, 2, 3] \<and> Distinct [1, 2, 3 :: int] = Inr [1, 2, 3]"
  using Distinct_first_occurrences [of "[1, 2, 1, 3, 2 :: int]"] by (simp add: Distinct_eq)

section \<open>UnionSeq\<close>

lemma first_occurrences_append:
  "first_occurrences (a @ b) =
     first_occurrences a @ filter (\<lambda>y. y \<notin> set a) (first_occurrences b)"
proof (induction a)
  case Nil
  then show ?case by simp
next
  case (Cons x a)
  have "filter (\<lambda>y. y \<noteq> x) (filter (\<lambda>y. y \<notin> set a) (first_occurrences b)) =
        filter (\<lambda>y. y \<notin> set (x # a)) (first_occurrences b)"
    by (auto intro: filter_cong)
  with Cons show ?case by simp
qed

lemma UnionSeq_loop_Values:
  assumes "UnionSeq_loop xs yield seen s = (c, seen', s')"
  shows "Values (filter (\<lambda>y. seen y = None) (first_occurrences xs) @ rest) yield s =
           (if c then Values rest yield s' else s')"
  using assms
proof (induction xs arbitrary: seen s)
  case Nil
  then show ?case by simp
next
  case (Cons x xs)
  show ?case
  proof (cases "seen x = None")
    case False
    then have "filter (\<lambda>y. seen y = None) (first_occurrences (x # xs)) =
               filter (\<lambda>y. seen y = None) (first_occurrences xs)"
      by (auto intro: filter_cong)
    moreover have "UnionSeq_loop xs yield seen s = (c, seen', s')"
      using Cons.prems False by simp
    ultimately show ?thesis using Cons.IH by simp
  next
    case True
    obtain k t where y: "yield x s = (k, t)" by (cases "yield x s")
    have f: "filter (\<lambda>y. seen y = None) (first_occurrences (x # xs)) =
             x # filter (\<lambda>y. (seen(x \<mapsto> True)) y = None) (first_occurrences xs)"
      using True by (auto intro: filter_cong)
    show ?thesis
    proof (cases k)
      case False
      with Cons.prems True y have "c = False" "s' = t" by simp_all
      then show ?thesis using f y False by simp
    next
      case k: True
      with Cons.prems True y
      have "UnionSeq_loop xs yield (seen(x \<mapsto> True)) t = (c, seen', s')" by simp
      from Cons.IH [OF this] show ?thesis using f y k by simp
    qed
  qed
qed

lemma UnionSeq_loop_dom:
  assumes "UnionSeq_loop xs yield seen s = (True, seen', s')"
  shows "dom seen' = dom seen \<union> set xs"
  using assms
proof (induction xs arbitrary: seen s)
  case Nil
  then show ?case by simp
next
  case (Cons x xs)
  show ?case
  proof (cases "seen x = None")
    case False
    with Cons.prems have "UnionSeq_loop xs yield seen s = (True, seen', s')" by simp
    from Cons.IH [OF this] show ?thesis using False by auto
  next
    case True
    obtain k t where y: "yield x s = (k, t)" by (cases "yield x s")
    show ?thesis
    proof (cases k)
      case False
      with Cons.prems True y show ?thesis by simp
    next
      case k: True
      with Cons.prems True y
      have "UnionSeq_loop xs yield (seen(x \<mapsto> True)) t = (True, seen', s')" by simp
      from Cons.IH [OF this] show ?thesis by auto
    qed
  qed
qed

lemma UnionSeq_Values:
  "snd (UnionSeq a b yield Map.empty s) = Values (first_occurrences (a @ b)) yield s"
proof -
  obtain c seen' s' where l1: "UnionSeq_loop a yield Map.empty s = (c, seen', s')"
    by (cases "UnionSeq_loop a yield Map.empty s")
  have v1: "Values (first_occurrences a @ rest) yield s = (if c then Values rest yield s' else s')"
    for rest
    using UnionSeq_loop_Values [OF l1, of rest] by simp
  show ?thesis
  proof (cases c)
    case False
    then show ?thesis using l1 v1 by (simp add: UnionSeq_def first_occurrences_append)
  next
    case True
    obtain c2 seen2 s2 where l2: "UnionSeq_loop b yield seen' s' = (c2, seen2, s2)"
      by (cases "UnionSeq_loop b yield seen' s'")
    have "dom seen' = set a" using UnionSeq_loop_dom [of a yield Map.empty s seen' s'] l1 True
      by simp
    then have "filter (\<lambda>y. seen' y = None) (first_occurrences b) =
               filter (\<lambda>y. y \<notin> set a) (first_occurrences b)"
      by (auto intro!: filter_cong simp: domIff)
    then have "Values (filter (\<lambda>y. y \<notin> set a) (first_occurrences b)) yield s' = s2"
      using UnionSeq_loop_Values [OF l2, of "[]"] by simp
    then show ?thesis using l1 l2 v1 True by (simp add: UnionSeq_def first_occurrences_append)
  qed
qed

text \<open>
  C10. A first, complete drive of \<^verbatim>\<open>UnionSeq(a, b)\<close> hands the consumer each element of
  \<open>a\<close> or \<open>b\<close> exactly once, in the order of first occurrence in \<open>a\<close> followed by \<open>b\<close>:
  the first-time elements of \<open>a\<close>, then the first-time elements of \<open>b\<close> that are not in
  \<open>a\<close>. For any consumer, also one that stops early, the drive is the same as pushing
  that list. The eager Union gives no such order: for the slices \<open>[1, 2]\<close> and \<open>[2, 3]\<close>
  it may return \<open>[3, 1, 2]\<close>.
\<close>

theorem UnionSeq_first_occurrence_order:
  "\<exists>r. snd (UnionSeq a b collect Map.empty []) = r \<and>
       distinct r \<and> set r = set a \<union> set b \<and>
       r = map (\<lambda>i. (a @ b) ! i)
             (filter (\<lambda>i. (a @ b) ! i \<notin> set (take i (a @ b))) [0..<length (a @ b)]) \<and>
       r = first_occurrences a @ filter (\<lambda>y. y \<notin> set a) (first_occurrences b) \<and>
       snd (UnionSeq a b yield Map.empty s) = Values r yield s \<and>
       Union_go [1, 2 :: int] [2, 3] [3, 1, 2] \<and>
       snd (UnionSeq [1, 2 :: int] [2, 3] collect Map.empty []) \<noteq> [3, 1, 2]"
proof (intro exI conjI)
  show "snd (UnionSeq a b collect Map.empty []) = first_occurrences (a @ b)"
    by (simp add: UnionSeq_Values Values_collect)
  show "distinct (first_occurrences (a @ b))" by simp
  show "set (first_occurrences (a @ b)) = set a \<union> set b" by simp
  show "first_occurrences (a @ b) = map (\<lambda>i. (a @ b) ! i)
             (filter (\<lambda>i. (a @ b) ! i \<notin> set (take i (a @ b))) [0..<length (a @ b)])"
    by (rule first_occurrences_positions)
  show "first_occurrences (a @ b) =
          first_occurrences a @ filter (\<lambda>y. y \<notin> set a) (first_occurrences b)"
    by (rule first_occurrences_append)
  show "snd (UnionSeq a b yield Map.empty s) = Values (first_occurrences (a @ b)) yield s"
    by (rule UnionSeq_Values)
  show "Union_go [1, 2 :: int] [2, 3] [3, 1, 2]"
    by (auto simp: Union_go_def)
  show "snd (UnionSeq [1, 2 :: int] [2, 3] collect Map.empty []) \<noteq> [3, 1, 2]"
    by (simp add: UnionSeq_Values Values_collect)
qed

theorem UnionSeq_first_occurrence_order_witness:
  "snd (UnionSeq [1, 2, 1, 3 :: int] [3, 4, 1, 5] collect Map.empty []) = [1, 2, 3, 4, 5]"
  using UnionSeq_first_occurrence_order [of "[1, 2, 1, 3 :: int]" "[3, 4, 1, 5]" collect "[]"]
  by simp

section \<open>Chunk\<close>

text \<open>
  When \<^verbatim>\<open>len(slice) + chunkSize - 1\<close> stays within the 64-bit range, Chunk returns the
  chunks the specification describes.
\<close>

lemma wrap64_id: "- (2 ^ 63) \<le> x \<Longrightarrow> x < 2 ^ 63 \<Longrightarrow> wrap64 x = x"
  by (simp add: wrap64_def)

lemma wrap64_add_left: "wrap64 (wrap64 a + b) = wrap64 (a + b)"
proof -
  have "(wrap64 a + b + 2 ^ 63) mod 2 ^ 64 = ((a + 2 ^ 63) mod 2 ^ 64 + b) mod 2 ^ 64"
    by (simp add: wrap64_def algebra_simps)
  also have "\<dots> = (a + 2 ^ 63 + b) mod 2 ^ 64" by (rule mod_add_left_eq)
  finally show ?thesis by (simp add: wrap64_def algebra_simps)
qed

lemma chunks_of_Nil [simp]: "chunks_of n [] = []"
  by (subst chunks_of.simps) simp

lemma chunks_of_step:
  "0 < n \<Longrightarrow> xs \<noteq> [] \<Longrightarrow> chunks_of n xs = take n xs # chunks_of n (drop n xs)"
  by (subst chunks_of.simps) simp

lemma concat_chunks_of: "0 < n \<Longrightarrow> concat (chunks_of n xs) = xs"
proof (induction n xs rule: chunks_of.induct)
  case (1 n xs)
  show ?case
  proof (cases "xs = []")
    case True
    then show ?thesis by simp
  next
    case False
    with 1 show ?thesis by (simp add: chunks_of_step)
  qed
qed

lemma chunks_of_lengths:
  "0 < n \<Longrightarrow> c \<in> set (chunks_of n xs) \<Longrightarrow> 1 \<le> length c \<and> length c \<le> n"
proof (induction n xs rule: chunks_of.induct)
  case (1 n xs)
  show ?case
  proof (cases "xs = []")
    case True
    with 1 show ?thesis by simp
  next
    case False
    with 1 show ?thesis by (cases xs) (auto simp: chunks_of_step)
  qed
qed

lemma chunks_of_butlast:
  "0 < n \<Longrightarrow> c \<in> set (butlast (chunks_of n xs)) \<Longrightarrow> length c = n"
proof (induction n xs rule: chunks_of.induct)
  case (1 n xs)
  show ?case
  proof (cases "xs = []")
    case True
    with 1 show ?thesis by simp
  next
    case False
    note ne = this
    show ?thesis
    proof (cases "drop n xs = []")
      case True
      with 1 ne show ?thesis by (simp add: chunks_of_step)
    next
      case False
      then have "chunks_of n (drop n xs) \<noteq> []"
        using "1.prems"(1) by (simp add: chunks_of_step)
      with 1 ne False show ?thesis by (auto simp: chunks_of_step)
    qed
  qed
qed

lemma Chunk_loop_chunks_of:
  assumes "0 < chunkSize" and "0 \<le> i" and "int (length slice) + chunkSize \<le> 2 ^ 63"
  shows "Chunk_loop slice chunkSize i chunks =
           Some (Inr (chunks @ chunks_of (nat chunkSize) (drop (nat i) slice)))"
  using assms(2)
proof (induction "nat (int (length slice) - i)" arbitrary: i chunks rule: less_induct)
  case less
  show ?case
  proof (cases "i < int (length slice)")
    case False
    then show ?thesis using less.prems by (subst Chunk_loop.simps) simp
  next
    case True
    have w: "wrap64 (i + chunkSize) = i + chunkSize"
      using True assms(1,3) less.prems by (intro wrap64_id) simp_all
    let ?end = "if i + chunkSize > int (length slice) then int (length slice) else i + chunkSize"
    have ne: "drop (nat i) slice \<noteq> []" using True less.prems by simp
    have t: "take (nat (?end - i)) (drop (nat i) slice) = take (nat chunkSize) (drop (nat i) slice)"
      using True less.prems by auto
    have d: "drop (nat (i + chunkSize)) slice = drop (nat chunkSize) (drop (nat i) slice)"
      using assms(1) less.prems by (simp add: nat_add_distrib add.commute)
    have "Chunk_loop slice chunkSize i chunks =
            Chunk_loop slice chunkSize (i + chunkSize)
              (chunks @ [take (nat (?end - i)) (drop (nat i) slice)])"
      using True less.prems assms(1) by (subst Chunk_loop.simps) (simp add: w Let_def)
    also have "\<dots> = Some (Inr ((chunks @ [take (nat (?end - i)) (drop (nat i) slice)]) @
                 chunks_of (nat chunkSize) (drop (nat (i + chunkSize)) slice)))"
      by (rule less.hyps) (use True assms(1) less.prems in simp_all)
    also have "(chunks @ [take (nat (?end - i)) (drop (nat i) slice)]) @
                 chunks_of (nat chunkSize) (drop (nat (i + chunkSize)) slice) =
               chunks @ chunks_of (nat chunkSize) (drop (nat i) slice)"
      using ne assms(1) by (simp add: t d chunks_of_step [of "nat chunkSize" "drop (nat i) slice"])
    finally show ?thesis .
  qed
qed

lemma Chunk_numChunks_nonneg:
  assumes "0 < chunkSize" and "0 < n" and "n + chunkSize \<le> 2 ^ 63"
  shows "0 \<le> quo (wrap64 (wrap64 (n + chunkSize) - 1)) chunkSize"
proof -
  have "wrap64 (wrap64 (n + chunkSize) - 1) = wrap64 (n + chunkSize - 1)"
    using wrap64_add_left [of "n + chunkSize" "- 1"] by simp
  also have "\<dots> = n + chunkSize - 1" using assms by (intro wrap64_id) simp_all
  finally have "quo (wrap64 (wrap64 (n + chunkSize) - 1)) chunkSize =
      (n + chunkSize - 1) div chunkSize"
    using assms by (simp add: quo_def)
  also have "0 \<le> (n + chunkSize - 1) div chunkSize"
    using assms by (intro pos_imp_zdiv_nonneg_iff [THEN iffD2]) simp_all
  finally show ?thesis by simp
qed

lemma Chunk_without_overflow:
  assumes "0 < chunkSize" and "slice \<noteq> []" and "int (length slice) + chunkSize \<le> 2 ^ 63"
  shows "\<exists>chunks. Chunk slice chunkSize = Some (Inr chunks) \<and> concat chunks = slice \<and>
           chunks \<noteq> [] \<and>
           (\<forall>c \<in> set (butlast chunks). int (length c) = chunkSize) \<and>
           1 \<le> length (last chunks) \<and> int (length (last chunks)) \<le> chunkSize"
proof -
  let ?cs = "chunks_of (nat chunkSize) slice"
  have n: "0 < nat chunkSize" using assms(1) by simp
  have "0 \<le> quo (wrap64 (wrap64 (int (length slice) + chunkSize) - 1)) chunkSize"
    using assms by (intro Chunk_numChunks_nonneg) simp_all
  then have "Chunk slice chunkSize = Chunk_loop slice chunkSize 0 []"
    using assms by (simp add: Chunk_def Let_def)
  also have "\<dots> = Some (Inr ?cs)"
    using Chunk_loop_chunks_of [OF assms(1) _ assms(3), of 0 "[]"] by simp
  finally have r: "Chunk slice chunkSize = Some (Inr ?cs)" .
  have ne: "?cs \<noteq> []" using assms(2) n by (simp add: chunks_of_step)
  then have l: "last ?cs \<in> set ?cs" by simp
  have b: "\<forall>c \<in> set (butlast ?cs). int (length c) = chunkSize"
    using chunks_of_butlast [OF n] assms(1) by fastforce
  show ?thesis
    using r ne b chunks_of_lengths [OF n l] concat_chunks_of [OF n, of slice] assms(1)
    by (intro exI [of _ ?cs]) auto
qed

lemma Chunk_empty_result:
  "chunkSize \<le> 0 \<or> slice = [] \<Longrightarrow> Chunk slice chunkSize = Some (Inr [])"
  by (auto simp: Chunk_def)

text \<open>
  C5. Chunk should return the chunks of every non-empty slice for every positive size.
  For a slice of two elements and the size \<open>2^63 - 1\<close> (\<^verbatim>\<open>math.MaxInt\<close>) the sum in
  \<^verbatim>\<open>(len(slice) + chunkSize - 1) / chunkSize\<close> wraps around, \<^verbatim>\<open>numChunks\<close> is \<open>-1\<close>, and
  the allocation of the result panics; the same size on a slice of one element gives the
  single chunk.
\<close>

theorem Chunk_MaxInt_panics:
  "Chunk [1, 2 :: int] (2 ^ 63 - 1) = Some (Inl (PanicError (RuntimeError MakesliceCapOutOfRange))) \<and>
   quo (wrap64 (wrap64 (int (length [1, 2 :: int]) + (2 ^ 63 - 1)) - 1)) (2 ^ 63 - 1) = - 1 \<and>
   Chunk [1 :: int] (2 ^ 63 - 1) = Some (Inr [[1]])"
  by (simp add: Chunk_def wrap64_def quo_def Chunk_loop.simps)

section \<open>ParallelMap and Map\<close>

lemma Map_loop_eq:
  "length out = i + length xs \<Longrightarrow> Map_loop f xs i out = take i out @ map f xs"
proof (induction xs arbitrary: i out)
  case Nil
  then show ?case by simp
next
  case (Cons x xs)
  have "Map_loop f (x # xs) i out = Map_loop f xs (i + 1) (out[i := f x])" by simp
  also have "\<dots> = take (i + 1) (out[i := f x]) @ map f xs"
    by (rule Cons.IH) (use Cons.prems in simp)
  also have "take (i + 1) (out[i := f x]) = take i out @ [f x]"
    using Cons.prems by (simp add: take_Suc_conv_app_nth)
  finally show ?case by simp
qed

lemma Map_eq_map: "Map zero xs f = map f xs"
  using Map_loop_eq [of "replicate (length xs) zero" 0 xs f] by (simp add: Map_def)

lemma held_update:
  "w < length ws \<Longrightarrow>
     mset (held (ws[w := x])) + mset (held [ws ! w]) = mset (held ws) + mset (held [x])"
proof (induction ws arbitrary: w)
  case Nil
  then show ?case by simp
next
  case (Cons a ws)
  show ?case
  proof (cases w)
    case 0
    then show ?thesis by (cases a; cases x) simp_all
  next
    case (Suc v)
    with Cons.prems have "v < length ws" by simp
    from Cons.IH [OF this] show ?thesis using Suc by (cases a) simp_all
  qed
qed

lemma remaining_steps_update:
  "w < length ws \<Longrightarrow>
     sum_list (map remaining_steps (ws[w := x])) + remaining_steps (ws ! w) =
     sum_list (map remaining_steps ws) + remaining_steps x"
proof (induction ws arbitrary: w)
  case Nil
  then show ?case by simp
next
  case (Cons a ws)
  show ?case
  proof (cases w)
    case 0
    then show ?thesis by simp
  next
    case (Suc v)
    with Cons.prems have "v < length ws" by simp
    from Cons.IH [OF this] show ?thesis using Suc by simp
  qed
qed

lemma held_all_Returned: "list_all (\<lambda>w. w = Returned) ws \<Longrightarrow> held ws = []"
  by (induction ws) auto

lemma pm_step_measure:
  assumes "pm_step f inp s s'"
  shows "pm_measure (length inp) s' < pm_measure (length inp) s"
  using assms
proof cases
  case send
  then show ?thesis by (simp add: pm_measure_def)
next
  case close
  then show ?thesis by (simp add: pm_measure_def)
next
  case (receive w idx rest)
  with remaining_steps_update [of w "workers s" "Holding idx"]
  show ?thesis by (simp add: pm_measure_def)
next
  case (process w idx)
  with remaining_steps_update [of w "workers s" Waiting]
  show ?thesis by (simp add: pm_measure_def)
next
  case (leave w)
  with remaining_steps_update [of w "workers s" Returned]
  show ?thesis by (simp add: pm_measure_def)
qed

lemma pm_step_next_send:
  assumes "pm_step f inp s s'" and "next_send s \<le> length inp"
  shows "next_send s' \<le> length inp"
  using assms by cases simp_all

lemma pm_progress:
  assumes "next_send s \<le> length inp" and "\<not> finished s"
  shows "\<exists>s'. pm_step f inp s s'"
proof (cases "next_send s < length inp")
  case True
  then show ?thesis by (blast intro: pm_step.send)
next
  case False
  with assms(1) have n: "next_send s = length inp" by simp
  show ?thesis
  proof (cases "closed s")
    case False
    with n show ?thesis by (blast intro: pm_step.close)
  next
    case True
    with assms(2) have "\<not> list_all (\<lambda>w. w = Returned) (workers s)"
      by (simp add: finished_def)
    then obtain w where w: "w < length (workers s)" "workers s ! w \<noteq> Returned"
      by (auto simp: list_all_length)
    show ?thesis
    proof (cases "workers s ! w")
      case Waiting
      show ?thesis
      proof (cases "inputChan s")
        case Nil
        with w Waiting True show ?thesis by (blast intro: pm_step.leave)
      next
        case (Cons idx rest)
        with w Waiting show ?thesis by (blast intro: pm_step.receive)
      qed
    next
      case (Holding idx)
      with w show ?thesis by (blast intro: pm_step.process)
    next
      case Returned
      with w show ?thesis by simp
    qed
  qed
qed

lemma pm_run_exists:
  assumes "next_send s \<le> length inp"
  shows "\<exists>s'. (pm_step f inp)\<^sup>*\<^sup>* s s' \<and> finished s'"
  using assms
proof (induction "pm_measure (length inp) s" arbitrary: s rule: less_induct)
  case less
  show ?case
  proof (cases "finished s")
    case True
    then show ?thesis by blast
  next
    case False
    then obtain t where t: "pm_step f inp s t"
      using pm_progress [OF less.prems] by blast
    have "pm_measure (length inp) t < pm_measure (length inp) s"
      using t by (rule pm_step_measure)
    moreover have "next_send t \<le> length inp"
      using t less.prems by (rule pm_step_next_send)
    ultimately obtain s' where "(pm_step f inp)\<^sup>*\<^sup>* t s'" "finished s'"
      using less.hyps by blast
    with t show ?thesis by (blast intro: converse_rtranclp_into_rtranclp)
  qed
qed

lemma pm_step_wf: "wfp (\<lambda>s' s. pm_step f inp s s')"
  by (rule wfp_if_convertible_to_nat [of _ "pm_measure (length inp)"]) (rule pm_step_measure)



lemma held_replicate_Waiting: "held (replicate n Waiting) = []"
  by (induction n) simp_all

lemma pm_inv_init:
  "pm_inv (if length inp < numCPU then length inp else numCPU) f inp
     (ParallelMap_init numCPU zero inp)"
  by (simp add: pm_inv_def ParallelMap_init_def held_replicate_Waiting)

lemma held_nth: "w < length ws \<Longrightarrow> ws ! w = Holding idx \<Longrightarrow> idx \<in> set (held ws)"
proof (induction ws arbitrary: w)
  case Nil
  then show ?case by simp
next
  case (Cons a ws)
  then show ?case by (cases w; cases a) auto
qed

lemma pm_inv_step:
  assumes "pm_step f inp s s'" and inv: "pm_inv k f inp s"
  shows "pm_inv k f inp s'"
  using assms(1)
proof cases
  case send
  have "\<not> closed s" using inv send by (auto simp: pm_inv_def)
  then have r: "Returned \<notin> set (workers s)" using inv by (auto simp: pm_inv_def)
  have "next_send s \<notin> set (invoked s @ inputChan s @ held (workers s))"
    using inv by (simp add: pm_inv_def)
  then have d: "distinct (invoked s @ (inputChan s @ [next_send s]) @ held (workers s))"
    using inv by (auto simp: pm_inv_def)
  have e: "set (invoked s @ (inputChan s @ [next_send s]) @ held (workers s)) =
             {..<Suc (next_send s)}"
    using inv by (auto simp: pm_inv_def lessThan_Suc)
  show ?thesis
    unfolding pm_inv_def send
    using inv send(2) r d e \<open>\<not> closed s\<close> unfolding pm_inv_def by simp
next
  case close
  with inv show ?thesis by (simp add: pm_inv_def)
next
  case (receive w idx rest)
  have h: "mset (held ((workers s)[w := Holding idx])) = mset (held (workers s)) + {#idx#}"
    using held_update [of w "workers s" "Holding idx"] receive by simp
  have r: "Returned \<notin> set (workers s)"
    using inv receive by (auto simp: pm_inv_def)
  then have r': "Returned \<notin> set ((workers s)[w := Holding idx])"
    using set_update_subset_insert [of "workers s" w "Holding idx"] by auto
  have m: "mset (invoked s @ rest @ held ((workers s)[w := Holding idx])) =
           mset (invoked s @ inputChan s @ held (workers s))"
    using h receive by simp
  have d: "distinct (invoked s @ rest @ held ((workers s)[w := Holding idx]))"
    using mset_eq_imp_distinct_iff [OF m] inv by (simp add: pm_inv_def)
  have e: "set (invoked s @ rest @ held ((workers s)[w := Holding idx])) = {..<next_send s}"
    using mset_eq_setD [OF m] inv by (simp add: pm_inv_def)
  show ?thesis
    unfolding pm_inv_def receive
    using inv r' d e unfolding pm_inv_def by simp
next
  case (process w idx)
  have h: "mset (held ((workers s)[w := Waiting])) + {#idx#} = mset (held (workers s))"
    using held_update [of w "workers s" Waiting] process by simp
  have hi: "idx \<in> set (held (workers s))"
    using held_nth [of w "workers s" idx] process by simp
  then have "idx \<in> {..<next_send s}" using inv unfolding pm_inv_def by auto
  then have idx: "idx < length inp" using inv by (simp add: pm_inv_def)
  have dn: "idx \<notin> set (invoked s)"
    using hi inv by (auto simp: pm_inv_def)
  have len: "length (outputSlice s) = length inp" using inv by (simp add: pm_inv_def)
  have out: "list_all (\<lambda>i. (outputSlice s)[idx := f (inp ! idx)] ! i = f (inp ! i)) (invoked s @ [idx])"
  proof -
    have old: "\<forall>i \<in> set (invoked s). outputSlice s ! i = f (inp ! i)"
      using inv by (simp add: pm_inv_def list_all_iff)
    have "(outputSlice s)[idx := f (inp ! idx)] ! i = f (inp ! i)" if "i \<in> set (invoked s)" for i
    proof -
      from that dn have "i \<noteq> idx" by auto
      then show ?thesis using old that by simp
    qed
    moreover have "(outputSlice s)[idx := f (inp ! idx)] ! idx = f (inp ! idx)"
      using idx len by simp
    ultimately show ?thesis by (simp add: list_all_iff)
  qed
  have ret: "Returned \<in> set ((workers s)[w := Waiting]) \<Longrightarrow> Returned \<in> set (workers s)"
    using set_update_subset_insert [of "workers s" w Waiting] by auto
  have m: "mset ((invoked s @ [idx]) @ inputChan s @ held ((workers s)[w := Waiting])) =
           mset (invoked s @ inputChan s @ held (workers s))"
    using h [symmetric] by simp
  have d: "distinct ((invoked s @ [idx]) @ inputChan s @ held ((workers s)[w := Waiting]))"
    using mset_eq_imp_distinct_iff [OF m] inv by (simp add: pm_inv_def)
  have e: "set ((invoked s @ [idx]) @ inputChan s @ held ((workers s)[w := Waiting])) =
             {..<next_send s}"
    using mset_eq_setD [OF m] inv by (simp add: pm_inv_def)
  have c: "Returned \<in> set ((workers s)[w := Waiting]) \<longrightarrow> closed s \<and> inputChan s = []"
    using ret inv by (auto simp: pm_inv_def)
  show ?thesis
    unfolding pm_inv_def process
    using inv out c d e len unfolding pm_inv_def by simp
next
  case (leave w)
  have h: "mset (held ((workers s)[w := Returned])) = mset (held (workers s))"
    using held_update [of w "workers s" Returned] leave by simp
  have m: "mset (invoked s @ inputChan s @ held ((workers s)[w := Returned])) =
           mset (invoked s @ inputChan s @ held (workers s))"
    using h by simp
  have d: "distinct (invoked s @ inputChan s @ held ((workers s)[w := Returned]))"
    using mset_eq_imp_distinct_iff [OF m] inv by (simp add: pm_inv_def)
  have e: "set (invoked s @ inputChan s @ held ((workers s)[w := Returned])) = {..<next_send s}"
    using mset_eq_setD [OF m] inv by (simp add: pm_inv_def)
  show ?thesis
    unfolding pm_inv_def leave
    using inv leave(4,5) d e unfolding pm_inv_def by simp
qed

lemma pm_inv_reachable:
  assumes "(pm_step f inp)\<^sup>*\<^sup>* (ParallelMap_init numCPU zero inp) s"
  shows "pm_inv (if length inp < numCPU then length inp else numCPU) f inp s"
  using assms
proof (induction rule: rtranclp_induct)
  case base
  show ?case by (rule pm_inv_init)
next
  case (step t u)
  from step.hyps(2) step.IH show ?case by (rule pm_inv_step)
qed

lemma pm_finished_all_invoked:
  assumes inv: "pm_inv k f inp s" and "finished s" and "inp = [] \<or> 0 < k"
  shows "set (invoked s) = {..<length inp}"
proof (cases "inp = []")
  case True
  have "set (invoked s) \<subseteq> {..<next_send s}"
    using inv unfolding pm_inv_def by auto
  moreover have "next_send s = 0" using inv True by (simp add: pm_inv_def)
  ultimately show ?thesis using True by simp
next
  case False
  with assms(3) have "0 < k" by simp
  then have "workers s \<noteq> []" using inv by (auto simp: pm_inv_def)
  then obtain w ws where "workers s = w # ws" by (cases "workers s") auto
  then have "Returned \<in> set (workers s)" using assms(2) by (simp add: finished_def)
  then have c: "inputChan s = []" "closed s" using inv by (simp_all add: pm_inv_def)
  have h: "held (workers s) = []"
    using assms(2) by (simp add: finished_def held_all_Returned)
  have n: "next_send s = length inp" using inv c(2) by (simp add: pm_inv_def)
  show ?thesis using inv c(1) h n by (simp add: pm_inv_def)
qed

lemma pm_finished_output:
  assumes "pm_inv k f inp s" and "finished s" and "inp = [] \<or> 0 < k"
  shows "outputSlice s = map f inp"
proof (rule nth_equalityI)
  show "length (outputSlice s) = length (map f inp)"
    using assms(1) by (simp add: pm_inv_def)
next
  fix i assume "i < length (outputSlice s)"
  then have i: "i < length inp" using assms(1) by (simp add: pm_inv_def)
  have "set (invoked s) = {..<length inp}"
    by (rule pm_finished_all_invoked [OF assms])
  with i have "i \<in> set (invoked s)" by simp
  then have "outputSlice s ! i = f (inp ! i)"
    using assms(1) by (simp add: pm_inv_def list_all_iff)
  with i show "outputSlice s ! i = map f inp ! i" by simp
qed


text \<open>
  A run on two elements with two workers in which the second element is processed before
  the first.
\<close>

lemma ParallelMap_out_of_order_run:
  "(pm_step (\<lambda>x. x + 1) [10, 20 :: int])\<^sup>*\<^sup>* (ParallelMap_init 2 0 [10, 20 :: int])
     \<lparr>next_send = 2, closed = True, inputChan = [], workers = [Returned, Returned],
      outputSlice = [11, 21], invoked = [1, 0]\<rparr>"
proof -
  let ?f = "\<lambda>x :: int. x + 1"
  let ?inp = "[10, 20 :: int]"
  let ?s0 = "\<lparr>next_send = 0, closed = False, inputChan = [], workers = [Waiting, Waiting],
      outputSlice = [0, 0 :: int], invoked = []\<rparr>"
  let ?s1 = "\<lparr>next_send = 1, closed = False, inputChan = [0], workers = [Waiting, Waiting],
      outputSlice = [0, 0 :: int], invoked = []\<rparr>"
  let ?s2 = "\<lparr>next_send = 2, closed = False, inputChan = [0, 1], workers = [Waiting, Waiting],
      outputSlice = [0, 0 :: int], invoked = []\<rparr>"
  let ?s3 = "\<lparr>next_send = 2, closed = False, inputChan = [1], workers = [Holding 0, Waiting],
      outputSlice = [0, 0 :: int], invoked = []\<rparr>"
  let ?s4 = "\<lparr>next_send = 2, closed = False, inputChan = [], workers = [Holding 0, Holding 1],
      outputSlice = [0, 0 :: int], invoked = []\<rparr>"
  let ?s5 = "\<lparr>next_send = 2, closed = False, inputChan = [], workers = [Holding 0, Waiting],
      outputSlice = [0, 21 :: int], invoked = [1]\<rparr>"
  let ?s6 = "\<lparr>next_send = 2, closed = False, inputChan = [], workers = [Waiting, Waiting],
      outputSlice = [11, 21 :: int], invoked = [1, 0]\<rparr>"
  let ?s7 = "\<lparr>next_send = 2, closed = True, inputChan = [], workers = [Waiting, Waiting],
      outputSlice = [11, 21 :: int], invoked = [1, 0]\<rparr>"
  let ?s8 = "\<lparr>next_send = 2, closed = True, inputChan = [], workers = [Returned, Waiting],
      outputSlice = [11, 21 :: int], invoked = [1, 0]\<rparr>"
  let ?s9 = "\<lparr>next_send = 2, closed = True, inputChan = [], workers = [Returned, Returned],
      outputSlice = [11, 21 :: int], invoked = [1, 0]\<rparr>"
  have i: "ParallelMap_init 2 0 ?inp = ?s0"
    by (simp add: ParallelMap_init_def numeral_2_eq_2)
  have 1: "pm_step ?f ?inp ?s0 ?s1" using pm_step.send [of ?s0 ?inp ?f] by (simp add: numeral_2_eq_2)
  have 2: "pm_step ?f ?inp ?s1 ?s2" using pm_step.send [of ?s1 ?inp ?f] by (simp add: numeral_2_eq_2)
  have 3: "pm_step ?f ?inp ?s2 ?s3" using pm_step.receive [of 0 ?s2 0 "[1]" ?f ?inp] by (simp add: numeral_2_eq_2)
  have 4: "pm_step ?f ?inp ?s3 ?s4" using pm_step.receive [of 1 ?s3 1 "[]" ?f ?inp] by (simp add: numeral_2_eq_2)
  have 5: "pm_step ?f ?inp ?s4 ?s5" using pm_step.process [of 1 ?s4 1 ?f ?inp] by (simp add: numeral_2_eq_2)
  have 6: "pm_step ?f ?inp ?s5 ?s6" using pm_step.process [of 0 ?s5 0 ?f ?inp] by (simp add: numeral_2_eq_2)
  have 7: "pm_step ?f ?inp ?s6 ?s7" using pm_step.close [of ?s6 ?inp ?f] by (simp add: numeral_2_eq_2)
  have 8: "pm_step ?f ?inp ?s7 ?s8" using pm_step.leave [of 0 ?s7 ?f ?inp] by (simp add: numeral_2_eq_2)
  have 9: "pm_step ?f ?inp ?s8 ?s9" using pm_step.leave [of 1 ?s8 ?f ?inp] by (simp add: numeral_2_eq_2)
  have "(pm_step ?f ?inp)\<^sup>*\<^sup>* ?s0 ?s9"
    using 1 2 3 4 5 6 7 8 9 by (meson rtranclp.rtrancl_into_rtrancl rtranclp.rtrancl_refl)
  then show ?thesis by (simp only: i)
qed

lemma ParallelMap_result:
  assumes "0 < numCPU" and "ParallelMap numCPU zero inputSlice mapFunc out"
  shows "out = map mapFunc (elements_of inputSlice)"
  using assms(2)
proof cases
  case nil_input
  then show ?thesis by (simp add: elements_of_def)
next
  case (run xs s)
  let ?k = "if length xs < numCPU then length xs else numCPU"
  have inv: "pm_inv ?k mapFunc xs s" using run(3) by (rule pm_inv_reachable)
  have "xs = [] \<or> 0 < ?k" using assms(1) by auto
  with inv run(4) have "outputSlice s = map mapFunc xs" by (rule pm_finished_output)
  with run show ?thesis by (simp add: elements_of_def)
qed

lemma ParallelMap_returns: "\<exists>out. ParallelMap numCPU zero inputSlice mapFunc out"
proof (cases inputSlice)
  case None
  then show ?thesis by (blast intro: ParallelMap.nil_input)
next
  case (Some xs)
  have "next_send (ParallelMap_init numCPU zero xs) \<le> length xs"
    by (simp add: ParallelMap_init_def)
  then obtain s where "(pm_step mapFunc xs)\<^sup>*\<^sup>* (ParallelMap_init numCPU zero xs) s" "finished s"
    using pm_run_exists by blast
  then show ?thesis using Some by (blast intro: ParallelMap.run)
qed

text \<open>
  C1. With at least one CPU, ParallelMap returns on every input, and whatever the
  schedule of the goroutines, the slice it returns is the one Map returns: it has the
  length of the input and holds \<open>mapFunc (inputSlice[i])\<close> at every position \<open>i\<close>. In
  every reachable state no index has been passed to \<open>mapFunc\<close> twice, and when the call
  returns every index has been passed to it exactly once. No run goes on forever: the
  step relation is well-founded.
\<close>

theorem ParallelMap_refines_Map:
  assumes "0 < numCPU"
  shows "(\<exists>out. ParallelMap numCPU zero inputSlice mapFunc out) \<and>
     (\<forall>out. ParallelMap numCPU zero inputSlice mapFunc out \<longrightarrow>
        out = Map zero (elements_of inputSlice) mapFunc \<and>
        length out = length (elements_of inputSlice) \<and>
        (\<forall>i < length (elements_of inputSlice). out ! i = mapFunc (elements_of inputSlice ! i))) \<and>
     (\<forall>s. (pm_step mapFunc xs)\<^sup>*\<^sup>* (ParallelMap_init numCPU zero xs) s \<longrightarrow>
        distinct (invoked s) \<and> (finished s \<longrightarrow> set (invoked s) = {..<length xs})) \<and>
     wfp (\<lambda>s' s. pm_step mapFunc xs s s')"
proof (intro conjI allI impI)
  show "\<exists>out. ParallelMap numCPU zero inputSlice mapFunc out"
    by (rule ParallelMap_returns)
next
  fix out assume r: "ParallelMap numCPU zero inputSlice mapFunc out"
  have m: "out = map mapFunc (elements_of inputSlice)"
    using assms r by (rule ParallelMap_result)
  then show "out = Map zero (elements_of inputSlice) mapFunc" by (simp add: Map_eq_map)
  show "length out = length (elements_of inputSlice)" using m by simp
  show "out ! i = mapFunc (elements_of inputSlice ! i)" if "i < length (elements_of inputSlice)" for i
    using m that by simp
next
  fix s assume r: "(pm_step mapFunc xs)\<^sup>*\<^sup>* (ParallelMap_init numCPU zero xs) s"
  let ?k = "if length xs < numCPU then length xs else numCPU"
  have inv: "pm_inv ?k mapFunc xs s" using r by (rule pm_inv_reachable)
  then show "distinct (invoked s)" by (simp add: pm_inv_def)
  have k: "xs = [] \<or> 0 < ?k" using assms by auto
  show "set (invoked s) = {..<length xs}" if "finished s"
    using inv that k by (rule pm_finished_all_invoked)
next
  show "wfp (\<lambda>s' s. pm_step mapFunc xs s s')" by (rule pm_step_wf)
qed

theorem ParallelMap_refines_Map_witness:
  "(0 :: nat) < 2 \<and>
   ParallelMap 2 0 (Some [10, 20 :: int]) (\<lambda>x. x + 1) [11, 21 :: int] \<and>
   [11, 21] = Map 0 (elements_of (Some [10, 20 :: int])) (\<lambda>x. x + 1) \<and>
   (\<exists>out. ParallelMap 2 (0 :: int) (Some [1, 2, 3 :: int]) (\<lambda>x. 2 * x) out \<and> out = [2, 4, 6])"
proof -
  have pos: "(0 :: nat) < 2" by simp
  have "finished \<lparr>next_send = 2, closed = True, inputChan = [], workers = [Returned, Returned],
      outputSlice = [11, 21 :: int], invoked = [1, 0]\<rparr>"
    by (simp add: finished_def)
  with ParallelMap_out_of_order_run
  have run: "ParallelMap 2 0 (Some [10, 20 :: int]) (\<lambda>x. x + 1) [11, 21 :: int]"
    using ParallelMap.run [of "\<lambda>x. x + 1" "[10, 20 :: int]" 2 0
        "\<lparr>next_send = 2, closed = True, inputChan = [], workers = [Returned, Returned],
          outputSlice = [11, 21 :: int], invoked = [1, 0]\<rparr>"]
    by simp
  have eq: "[11, 21] = Map 0 (elements_of (Some [10, 20 :: int])) (\<lambda>x. x + 1)"
    using ParallelMap_refines_Map [OF pos, of "0 :: int" "Some [10, 20 :: int]" "\<lambda>x. x + 1"] run
    by blast
  note t = ParallelMap_refines_Map [OF pos, of "0 :: int" "Some [1, 2, 3 :: int]" "\<lambda>x. 2 * x"]
  from t obtain out where o: "ParallelMap 2 (0 :: int) (Some [1, 2, 3 :: int]) (\<lambda>x. 2 * x) out"
    by blast
  with t have "out = Map 0 (elements_of (Some [1, 2, 3])) (\<lambda>x. 2 * x)" by blast
  also have "\<dots> = [2, 4, 6]" by (simp add: Map_def elements_of_def)
  finally have "out = [2, 4, 6]" .
  with o have "\<exists>out. ParallelMap 2 (0 :: int) (Some [1, 2, 3 :: int]) (\<lambda>x. 2 * x) out \<and>
      out = [2, 4, 6]" by blast
  with pos run eq show ?thesis by simp
qed

end
